theory Spec2Isabelle
  imports Main "HOL-Library.Word"
begin

unbundle bit_operations_syntax

section \<open>The Stratix10 SoC FPGA manager (drivers/fpga/stratix10-soc.c)\<close>

text \<open>
  The driver is embedded function by function. Pointers, \<open>size_t\<close>, \<open>dma_addr_t\<close> and
  \<open>unsigned long\<close> are 64-bit words (the driver is built for arm64), \<open>u32\<close> is a 32-bit
  word, and C \<open>int\<close> is \<open>int\<close>, with the conversion from a 64-bit value written out.
  The service layer, the DMA API and the completion are outside the driver: what they
  return is given to the functions as an argument, and every call the driver makes on
  them is appended to the field \<open>trace\<close> of the state.
\<close>

type_synonym addr = "64 word"
type_synonym ulong = "64 word"
type_synonym u32 = "32 word"

subsection \<open>Constants of the driver\<close>

definition NUM_SVC_BUFS :: nat where
  "NUM_SVC_BUFS = 4"

text \<open>\<open>SVC_BUF_SIZE\<close> is \<open>SZ_512K\<close>.\<close>

definition SVC_BUF_SIZE :: ulong where
  "SVC_BUF_SIZE = 0x80000"

definition SVC_BUF_LOCK :: nat where
  "SVC_BUF_LOCK = 0"

definition INVALID_FIRMWARE_VERSION :: u32 where
  "INVALID_FIRMWARE_VERSION = 0xFFFF"

text \<open>The error numbers of \<open>errno.h\<close>.\<close>

definition EFAULT :: int where
  "EFAULT = 14"

definition EINVAL :: int where
  "EINVAL = 22"

definition ENOBUFS :: int where
  "ENOBUFS = 105"

definition ETIMEDOUT :: int where
  "ETIMEDOUT = 110"

subsection \<open>Constants of headers that are not among the sources\<close>

text \<open>
  The status bit numbers and command flags of
  \<open>linux/firmware/intel/stratix10-svc-client.h\<close>, the flags of \<open>linux/fpga/fpga-mgr.h\<close>
  and the two timeouts (\<open>msecs_to_jiffies\<close> of constants of the first header) are not
  defined in the driver. Every function that uses one of them takes them as the
  parameter \<open>k\<close>.
\<close>

record svc_hdr =
  SVC_STATUS_OK :: nat
  SVC_STATUS_BUFFER_SUBMITTED :: nat
  SVC_STATUS_BUFFER_DONE :: nat
  SVC_STATUS_COMPLETED :: nat
  SVC_STATUS_ERROR :: nat
  SVC_STATUS_NO_SUPPORT :: nat
  COMMAND_RECONFIG_FLAG_PARTIAL :: nat
  COMMAND_AUTHENTICATE_BITSTREAM :: nat
  FPGA_MGR_PARTIAL_RECONFIG :: u32
  FPGA_MGR_BITSTREAM_AUTHENTICATE :: u32
  S10_BUFFER_TIMEOUT :: ulong
  S10_RECONFIG_TIMEOUT :: ulong

text \<open>
  Modelled from the spec: the values of the missing headers. The spec lists the status
  bits as OK, BUFFER_SUBMITTED, BUFFER_DONE, COMPLETED, ERROR, NO_SUPPORT; the numbers
  are those of the kernel header, where bit 4 is \<open>SVC_STATUS_BUSY\<close>, which the driver
  does not use. The flags are single bits, partial reconfiguration bit 0 and bitstream
  authentication bit 5; the timeouts are some number of jiffies.
\<close>

definition linux_hdr :: svc_hdr where
  "linux_hdr = \<lparr>
     SVC_STATUS_OK = 0,
     SVC_STATUS_BUFFER_SUBMITTED = 1,
     SVC_STATUS_BUFFER_DONE = 2,
     SVC_STATUS_COMPLETED = 3,
     SVC_STATUS_ERROR = 5,
     SVC_STATUS_NO_SUPPORT = 6,
     COMMAND_RECONFIG_FLAG_PARTIAL = 0,
     COMMAND_AUTHENTICATE_BITSTREAM = 1,
     FPGA_MGR_PARTIAL_RECONFIG = 1,
     FPGA_MGR_BITSTREAM_AUTHENTICATE = 32,
     S10_BUFFER_TIMEOUT = 180,
     S10_RECONFIG_TIMEOUT = 750 \<rparr>"

subsection \<open>Data\<close>

datatype command =
    COMMAND_RECONFIG
  | COMMAND_RECONFIG_DATA_SUBMIT
  | COMMAND_RECONFIG_DATA_CLAIM
  | COMMAND_RECONFIG_STATUS
  | COMMAND_FIRMWARE_VERSION

datatype s10_callback = S10_FW_VERSION_CALLBACK | S10_RECEIVE_CALLBACK

text \<open>
  What \<open>msg.payload\<close> points to: nothing (\<open>NULL\<close>), the local
  \<open>struct stratix10_svc_command_config_type\<close> with its flags (one \<open>u32\<close>, so that
  \<open>sizeof(ctype)\<close> is 4), or a service buffer.
\<close>

datatype payload = NoPayload | ConfigType u32 | Buffer addr

text \<open>
  The calls on the collaborators, in the order they are made. \<open>SvcSend\<close> records the
  command, the payload, the payload length and what \<open>stratix10_svc_send\<close> returned,
  \<open>WaitForCompletion\<close> the timeout of a wait and what the wait returned.
\<close>

datatype event =
    SvcSend command payload u32 int
  | SvcDone
  | SvcFreeMemory addr
  | Memcpy addr addr ulong
  | DmaMapSingle addr
  | DmaUnmapSingle addr
  | Warn addr
  | WaitForCompletion ulong ulong

text \<open>
  \<open>struct stratix10_svc_cb_data\<close>; \<open>kaddr1_val\<close> is the \<open>unsigned int\<close> stored at
  \<open>kaddr1\<close>, which \<open>s10_fw_version_callback\<close> reads.
\<close>

record stratix10_svc_cb_data =
  cb_status :: u32
  kaddr1 :: addr
  kaddr2 :: addr
  kaddr3 :: addr
  kaddr4 :: addr
  kaddr1_val :: u32

record s10_svc_buf =
  buf :: addr
  dma_addr :: addr
  lock :: ulong

text \<open>
  \<open>struct s10_priv\<close>. \<open>receive_cb\<close> is \<open>client.receive_cb\<close>,
  \<open>status_return_completion\<close> is the counter \<open>done\<close> of the completion, and \<open>trace\<close>
  is the history of the calls made so far.
\<close>

record s10_priv =
  svc_bufs :: "s10_svc_buf list"
  status :: ulong
  fw_version :: u32
  is_smmu_enabled :: bool
  receive_cb :: "s10_callback option"
  status_return_completion :: nat
  trace :: "event list"

text \<open>
  What the outside does during one pass of a loop of the driver (or one call of
  \<open>s10_ops_write_init\<close>): the notifications that arrive before the pass starts, what
  \<open>dma_map_single\<close> and \<open>stratix10_svc_send\<close> return, the notifications that arrive
  while the driver waits, and the jiffies that pass in that wait before it is woken.
\<close>

record env =
  e_async :: "stratix10_svc_cb_data list"
  e_dma :: addr
  e_send :: int
  e_msgs :: "stratix10_svc_cb_data list"
  e_elapsed :: ulong

subsection \<open>Bit operations and conversions\<close>

definition BIT :: "nat \<Rightarrow> ulong" where
  "BIT nr = push_bit nr 1"

definition test_and_set_bit_lock :: "nat \<Rightarrow> ulong \<Rightarrow> bool \<times> ulong" where
  "test_and_set_bit_lock nr w = (bit w nr, set_bit nr w)"

definition clear_bit_unlock :: "nat \<Rightarrow> ulong \<Rightarrow> ulong" where
  "clear_bit_unlock nr w = unset_bit nr w"

definition test_and_clear_bit :: "nat \<Rightarrow> ulong \<Rightarrow> bool \<times> ulong" where
  "test_and_clear_bit nr w = (bit w nr, unset_bit nr w)"

text \<open>A 64-bit value assigned to an \<open>int\<close>: the low 32 bits, read as two's complement.\<close>

definition ulong_to_int :: "ulong \<Rightarrow> int" where
  "ulong_to_int w = sint (ucast w :: 32 word)"

text \<open>An \<open>int\<close> converted to \<open>unsigned long\<close> or \<open>size_t\<close>: sign extension.\<close>

definition int_to_ulong :: "int \<Rightarrow> ulong" where
  "int_to_ulong i = word_of_int i"

subsection \<open>The completion\<close>

text \<open>
  Modelled from the spec: \<open>reinit_completion\<close>, \<open>complete\<close> and
  \<open>wait_for_completion_timeout\<close> of \<open>linux/completion.h\<close>, which are not among the
  sources. The wait condition is reset before each request, every notification sets it,
  and a wait either times out (0) or is woken and returns the rest of its time budget,
  at least 1. The notifications of the wait have been delivered when it returns, and
  \<open>elapsed\<close> is the number of jiffies that passed before the wake-up.
\<close>

definition reinit_completion :: "s10_priv \<Rightarrow> s10_priv" where
  "reinit_completion priv = priv\<lparr>status_return_completion := 0\<rparr>"

definition complete :: "s10_priv \<Rightarrow> s10_priv" where
  "complete priv = priv\<lparr>status_return_completion := Suc (status_return_completion priv)\<rparr>"

definition wait_for_completion_timeout :: "ulong \<Rightarrow> s10_priv \<Rightarrow> ulong \<Rightarrow> ulong \<times> s10_priv" where
  "wait_for_completion_timeout elapsed priv timeout =
     (if status_return_completion priv = 0
      then (0, priv\<lparr>trace := trace priv @ [WaitForCompletion timeout 0]\<rparr>)
      else
        (let left = (if elapsed < timeout then timeout - elapsed else 1)
         in (left, priv\<lparr>status_return_completion := status_return_completion priv - 1,
                         trace := trace priv @ [WaitForCompletion timeout left]\<rparr>)))"

subsection \<open>s10_svc_send_msg\<close>

definition s10_svc_send_msg ::
  "int \<Rightarrow> s10_priv \<Rightarrow> command \<Rightarrow> payload \<Rightarrow> u32 \<Rightarrow> s10_callback \<Rightarrow> int \<times> s10_priv" where
  "s10_svc_send_msg send_ret priv cmd pl payload_length callback =
     (let priv1 = priv\<lparr>receive_cb := Some callback\<rparr>;
          ret = send_ret
      in (ret, priv1\<lparr>trace := trace priv1 @ [SvcSend cmd pl payload_length ret]\<rparr>))"

subsection \<open>The buffer pool\<close>

function s10_free_buffers_loop :: "nat \<Rightarrow> nat \<Rightarrow> s10_priv \<Rightarrow> nat \<times> s10_priv" where
  "s10_free_buffers_loop i num_free priv =
     (if i < NUM_SVC_BUFS then
        (let b = svc_bufs priv ! i in
         if buf b = 0 then s10_free_buffers_loop (i + 1) (num_free + 1) priv
         else
           (let (was_set, l) = test_and_set_bit_lock SVC_BUF_LOCK (lock b) in
            if \<not> was_set then
              s10_free_buffers_loop (i + 1) (num_free + 1)
                (priv\<lparr>svc_bufs := (svc_bufs priv)[i := b\<lparr>lock := l, buf := 0\<rparr>],
                      trace := trace priv @ [SvcFreeMemory (buf b)]\<rparr>)
            else
              s10_free_buffers_loop (i + 1) num_free
                (priv\<lparr>svc_bufs := (svc_bufs priv)[i := b\<lparr>lock := l\<rparr>]\<rparr>)))
      else (num_free, priv))"
  by pat_completeness auto
termination
  by (relation "measure (\<lambda>(i, num_free, priv). NUM_SVC_BUFS - i)") auto

definition s10_free_buffers :: "s10_priv \<Rightarrow> bool \<times> s10_priv" where
  "s10_free_buffers priv =
     (let (num_free, priv1) = s10_free_buffers_loop 0 0 priv
      in (num_free = NUM_SVC_BUFS, priv1))"

function s10_get_unlocked_buffer_count_loop :: "nat \<Rightarrow> nat \<Rightarrow> s10_priv \<Rightarrow> nat" where
  "s10_get_unlocked_buffer_count_loop i num_free priv =
     (if i < NUM_SVC_BUFS then
        s10_get_unlocked_buffer_count_loop (i + 1)
          (if lock (svc_bufs priv ! i) = 0 then num_free + 1 else num_free) priv
      else num_free)"
  by pat_completeness auto
termination
  by (relation "measure (\<lambda>(i, num_free, priv). NUM_SVC_BUFS - i)") auto

definition s10_get_unlocked_buffer_count :: "s10_priv \<Rightarrow> nat" where
  "s10_get_unlocked_buffer_count priv = s10_get_unlocked_buffer_count_loop 0 0 priv"

function s10_unlock_bufs_loop :: "nat \<Rightarrow> s10_priv \<Rightarrow> addr \<Rightarrow> s10_priv" where
  "s10_unlock_bufs_loop i priv kaddr =
     (if i < NUM_SVC_BUFS then
        (let b = svc_bufs priv ! i in
         if buf b = kaddr then
           (let priv1 = (if is_smmu_enabled priv
                         then priv\<lparr>trace := trace priv @ [DmaUnmapSingle (dma_addr b)]\<rparr>
                         else priv)
            in priv1\<lparr>svc_bufs :=
                 (svc_bufs priv1)[i := b\<lparr>lock := clear_bit_unlock SVC_BUF_LOCK (lock b)\<rparr>]\<rparr>)
         else s10_unlock_bufs_loop (i + 1) priv kaddr)
      else priv\<lparr>trace := trace priv @ [Warn kaddr]\<rparr>)"
  by pat_completeness auto
termination
  by (relation "measure (\<lambda>(i, priv, kaddr). NUM_SVC_BUFS - i)") auto

definition s10_unlock_bufs :: "s10_priv \<Rightarrow> addr \<Rightarrow> s10_priv" where
  "s10_unlock_bufs priv kaddr =
     (if kaddr = 0 then priv else s10_unlock_bufs_loop 0 priv kaddr)"

subsection \<open>The callbacks\<close>

definition s10_fw_version_callback ::
  "svc_hdr \<Rightarrow> s10_priv \<Rightarrow> stratix10_svc_cb_data \<Rightarrow> s10_priv" where
  "s10_fw_version_callback k priv data =
     complete
       (if ucast (cb_status data) = BIT (SVC_STATUS_OK k)
        then priv\<lparr>fw_version := kaddr1_val data\<rparr>
        else priv)"

text \<open>
  The loop \<open>for (i = 0; i <= SVC_STATUS_ERROR; i++)\<close>: \<open>status & (1 << i)\<close> is a 32-bit
  conjunction, \<open>set_bit\<close> works on the 64-bit \<open>priv->status\<close>.
\<close>

function s10_receive_callback_loop :: "svc_hdr \<Rightarrow> nat \<Rightarrow> u32 \<Rightarrow> ulong \<Rightarrow> ulong" where
  "s10_receive_callback_loop k i st pst =
     (if i \<le> SVC_STATUS_ERROR k then
        s10_receive_callback_loop k (i + 1) st
          (if st AND push_bit i 1 \<noteq> 0 then set_bit i pst else pst)
      else pst)"
  by pat_completeness auto
termination
  by (relation "measure (\<lambda>(k, i, st, pst). Suc (SVC_STATUS_ERROR k) - i)") auto

definition s10_receive_callback ::
  "svc_hdr \<Rightarrow> s10_priv \<Rightarrow> stratix10_svc_cb_data \<Rightarrow> s10_priv" where
  "s10_receive_callback k priv data =
     (let st = cb_status data;
          priv1 = priv\<lparr>status := s10_receive_callback_loop k 0 st (status priv)\<rparr>;
          priv2 = (if ucast st AND BIT (SVC_STATUS_BUFFER_DONE k) \<noteq> 0
                   then s10_unlock_bufs
                          (s10_unlock_bufs
                             (s10_unlock_bufs
                                (s10_unlock_bufs priv1 (kaddr1 data))
                                (kaddr2 data))
                             (kaddr3 data))
                          (kaddr4 data)
                   else priv1)
      in complete priv2)"

text \<open>
  The service layer calls \<open>client.receive_cb\<close> for every notification; before
  the first request there is no receiver.
\<close>

fun deliver :: "svc_hdr \<Rightarrow> stratix10_svc_cb_data list \<Rightarrow> s10_priv \<Rightarrow> s10_priv" where
  "deliver k [] priv = priv"
| "deliver k (d # ds) priv =
     deliver k ds
       (case receive_cb priv of
          None \<Rightarrow> priv
        | Some S10_FW_VERSION_CALLBACK \<Rightarrow> s10_fw_version_callback k priv d
        | Some S10_RECEIVE_CALLBACK \<Rightarrow> s10_receive_callback k priv d)"

subsection \<open>Control flow of a loop pass\<close>

text \<open>
  A pass through the body of a loop either leaves the function with a return value
  (\<open>return\<close>, or \<open>break\<close> followed by \<open>return ret\<close>), or goes round again with the
  variables that the next pass reads.
\<close>

datatype 'a pass = Return int s10_priv | Again 'a

definition stratix10_svc_done :: "s10_priv \<Rightarrow> s10_priv" where
  "stratix10_svc_done priv = priv\<lparr>trace := trace priv @ [SvcDone]\<rparr>"

subsection \<open>s10_ops_write_init\<close>

text \<open>The label \<open>init_done\<close>.\<close>

definition init_done :: "int \<Rightarrow> s10_priv \<Rightarrow> int \<times> s10_priv" where
  "init_done ret priv = (ret, stratix10_svc_done priv)"

text \<open>
  The flags of the request, or \<open>None\<close> where the function returns \<open>-EINVAL\<close> at once.
\<close>

definition s10_ops_write_init_ctype :: "svc_hdr \<Rightarrow> s10_priv \<Rightarrow> u32 \<Rightarrow> u32 option" where
  "s10_ops_write_init_ctype k priv flags =
     (if flags AND FPGA_MGR_PARTIAL_RECONFIG k \<noteq> 0
      then Some (0 OR ucast (BIT (COMMAND_RECONFIG_FLAG_PARTIAL k)))
      else if flags AND FPGA_MGR_BITSTREAM_AUTHENTICATE k \<noteq> 0
      then (if fw_version priv = INVALID_FIRMWARE_VERSION then None
            else Some (0 OR ucast (BIT (COMMAND_AUTHENTICATE_BITSTREAM k))))
      else Some 0)"

definition s10_ops_write_init :: "svc_hdr \<Rightarrow> env \<Rightarrow> s10_priv \<Rightarrow> u32 \<Rightarrow> int \<times> s10_priv" where
  "s10_ops_write_init k e priv flags =
     (case s10_ops_write_init_ctype k priv flags of
        None \<Rightarrow> (- EINVAL, priv)
      | Some ctype \<Rightarrow>
          (let priv1 = reinit_completion priv;
               (ret, priv2) = s10_svc_send_msg (e_send e) priv1 COMMAND_RECONFIG
                                (ConfigType ctype) 4 S10_RECEIVE_CALLBACK
           in if ret < 0 then init_done ret priv2
              else
                (let (w, priv3) = wait_for_completion_timeout (e_elapsed e)
                                    (deliver k (e_msgs e) priv2) (S10_RECONFIG_TIMEOUT k)
                 in if ulong_to_int w = 0 then init_done (- ETIMEDOUT) priv3
                    else
                      (let (ok, st) = test_and_clear_bit (SVC_STATUS_OK k) (status priv3);
                           priv4 = priv3\<lparr>status := st\<rparr>
                       in if \<not> ok then init_done (- ETIMEDOUT) priv4
                          else init_done 0
                                 (priv4\<lparr>svc_bufs :=
                                    fold (\<lambda>i bufs. bufs[i := (bufs ! i)\<lparr>lock := 0\<rparr>])
                                      [0..<NUM_SVC_BUFS] (svc_bufs priv4)\<rparr>)))))"

subsection \<open>s10_send_buf\<close>

function s10_send_buf_loop :: "nat \<Rightarrow> s10_priv \<Rightarrow> nat \<times> s10_priv" where
  "s10_send_buf_loop i priv =
     (if i < NUM_SVC_BUFS then
        (let b = svc_bufs priv ! i;
             (was_set, l) = test_and_set_bit_lock SVC_BUF_LOCK (lock b);
             priv1 = priv\<lparr>svc_bufs := (svc_bufs priv)[i := b\<lparr>lock := l\<rparr>]\<rparr>
         in if \<not> was_set then (i, priv1) else s10_send_buf_loop (i + 1) priv1)
      else (i, priv))"
  by pat_completeness auto
termination
  by (relation "measure (\<lambda>(i, priv). NUM_SVC_BUFS - i)") auto

definition s10_send_buf :: "addr \<Rightarrow> int \<Rightarrow> s10_priv \<Rightarrow> addr \<Rightarrow> ulong \<Rightarrow> int \<times> s10_priv" where
  "s10_send_buf dma send_ret priv ubuf count =
     (let (i, priv1) = s10_send_buf_loop 0 priv
      in if i = NUM_SVC_BUFS then (- ENOBUFS, priv1)
         else
           (let xfer_sz = (if count < SVC_BUF_SIZE then count else SVC_BUF_SIZE);
                svc_buf = buf (svc_bufs priv1 ! i);
                priv2 = priv1\<lparr>trace := trace priv1 @ [Memcpy svc_buf ubuf xfer_sz]\<rparr>;
                priv3 = (if is_smmu_enabled priv2
                         then priv2\<lparr>svc_bufs :=
                                (svc_bufs priv2)[i := (svc_bufs priv2 ! i)\<lparr>dma_addr := dma\<rparr>],
                                trace := trace priv2 @ [DmaMapSingle svc_buf]\<rparr>
                         else priv2);
                (ret, priv4) = s10_svc_send_msg send_ret priv3 COMMAND_RECONFIG_DATA_SUBMIT
                                 (Buffer svc_buf) (ucast xfer_sz) S10_RECEIVE_CALLBACK
            in if ret < 0
               then (ret, priv4\<lparr>svc_bufs :=
                       (svc_bufs priv4)[i := (svc_bufs priv4 ! i)
                          \<lparr>lock := clear_bit_unlock SVC_BUF_LOCK (lock (svc_bufs priv4 ! i))\<rparr>]\<rparr>)
               else (ulong_to_int xfer_sz, priv4)))"

subsection \<open>s10_ops_write\<close>

text \<open>
  From \<open>wait_for_completion_timeout\<close> to the end of the loop body. The second
  \<open>test_and_clear_bit\<close> of the disjunction runs only when the first found its bit clear.
\<close>

definition s10_ops_write_wait ::
  "svc_hdr \<Rightarrow> env \<Rightarrow> s10_priv \<Rightarrow> addr \<Rightarrow> ulong \<Rightarrow> (s10_priv \<times> addr \<times> ulong) pass" where
  "s10_ops_write_wait k e priv ubuf count =
     (let (wait_status, priv1) = wait_for_completion_timeout (e_elapsed e)
                                   (deliver k (e_msgs e) priv) (S10_BUFFER_TIMEOUT k);
          (buffer_done, st1) = test_and_clear_bit (SVC_STATUS_BUFFER_DONE k) (status priv1)
      in if buffer_done then Again (priv1\<lparr>status := st1\<rparr>, ubuf, count)
         else
           (let (buffer_submitted, st2) =
                  test_and_clear_bit (SVC_STATUS_BUFFER_SUBMITTED k) st1
            in if buffer_submitted then Again (priv1\<lparr>status := st2\<rparr>, ubuf, count)
               else
                 (let (error, st3) = test_and_clear_bit (SVC_STATUS_ERROR k) st2
                  in if error then Return (- EFAULT) (priv1\<lparr>status := st3\<rparr>)
                     else if wait_status = 0 then Return (- ETIMEDOUT) (priv1\<lparr>status := st3\<rparr>)
                     else Again (priv1\<lparr>status := st3\<rparr>, ubuf, count))))"

text \<open>
  One pass through the body of \<open>while (true)\<close>. The locals \<open>sent\<close> and \<open>ret\<close> are
  written in a pass before they are read, so they are not carried to the next pass.
\<close>

definition s10_ops_write_pass ::
  "svc_hdr \<Rightarrow> env \<Rightarrow> s10_priv \<Rightarrow> addr \<Rightarrow> ulong \<Rightarrow> (s10_priv \<times> addr \<times> ulong) pass" where
  "s10_ops_write_pass k e priv ubuf count =
     (let priv1 = reinit_completion (deliver k (e_async e) priv)
      in if count > 0 then
           (let (sent, priv2) = s10_send_buf (e_dma e) (e_send e) priv1 ubuf count
            in if sent < 0 then Again (priv2, ubuf, count)
               else s10_ops_write_wait k e priv2
                      (ubuf + int_to_ulong sent) (count - int_to_ulong sent))
         else if s10_get_unlocked_buffer_count priv1 = NUM_SVC_BUFS then Return 0 priv1
         else
           (let (ret, priv2) = s10_svc_send_msg (e_send e) priv1 COMMAND_RECONFIG_DATA_CLAIM
                                 NoPayload 0 S10_RECEIVE_CALLBACK
            in if ret < 0 then Return ret priv2
               else s10_ops_write_wait k e priv2 ubuf count))"

text \<open>
  The loop runs for as long as the outside is described; \<open>None\<close> says that it is still
  running when the description ends.
\<close>

fun s10_ops_write_loop ::
  "svc_hdr \<Rightarrow> env list \<Rightarrow> s10_priv \<Rightarrow> addr \<Rightarrow> ulong \<Rightarrow> (int \<times> s10_priv) option" where
  "s10_ops_write_loop k [] priv ubuf count = None"
| "s10_ops_write_loop k (e # es) priv ubuf count =
     (case s10_ops_write_pass k e priv ubuf count of
        Return ret priv1 \<Rightarrow> Some (ret, priv1)
      | Again (priv1, ubuf1, count1) \<Rightarrow> s10_ops_write_loop k es priv1 ubuf1 count1)"

definition s10_ops_write ::
  "svc_hdr \<Rightarrow> env list \<Rightarrow> s10_priv \<Rightarrow> addr \<Rightarrow> ulong \<Rightarrow> (int \<times> s10_priv) option" where
  "s10_ops_write k es priv ubuf count = s10_ops_write_loop k es priv ubuf count"

subsection \<open>s10_ops_write_complete\<close>

text \<open>
  From \<open>wait_for_completion_timeout\<close> to the end of the body of \<open>do ... while (1)\<close>:
  the result of the wait goes through the \<open>int\<close> variable \<open>ret\<close> into \<open>timeout\<close>.
\<close>

definition s10_ops_write_complete_wait ::
  "svc_hdr \<Rightarrow> env \<Rightarrow> s10_priv \<Rightarrow> ulong \<Rightarrow> (s10_priv \<times> ulong) pass" where
  "s10_ops_write_complete_wait k e priv timeout =
     (let (w, priv1) = wait_for_completion_timeout (e_elapsed e)
                         (deliver k (e_msgs e) priv) timeout;
          ret = ulong_to_int w
      in if ret = 0 then Return (- ETIMEDOUT) priv1
         else
           (let timeout1 = int_to_ulong ret;
                (completed, st1) = test_and_clear_bit (SVC_STATUS_COMPLETED k) (status priv1)
            in if completed then Return 0 (priv1\<lparr>status := st1\<rparr>)
               else
                 (let (error, st2) = test_and_clear_bit (SVC_STATUS_ERROR k) st1
                  in if error then Return (- EFAULT) (priv1\<lparr>status := st2\<rparr>)
                     else Again (priv1\<lparr>status := st2\<rparr>, timeout1))))"

definition s10_ops_write_complete_pass ::
  "svc_hdr \<Rightarrow> env \<Rightarrow> s10_priv \<Rightarrow> ulong \<Rightarrow> (s10_priv \<times> ulong) pass" where
  "s10_ops_write_complete_pass k e priv timeout =
     (let priv1 = reinit_completion (deliver k (e_async e) priv);
          (ret, priv2) = s10_svc_send_msg (e_send e) priv1 COMMAND_RECONFIG_STATUS
                           NoPayload 0 S10_RECEIVE_CALLBACK
      in if ret < 0 then Return ret priv2
         else s10_ops_write_complete_wait k e priv2 timeout)"

fun s10_ops_write_complete_loop ::
  "svc_hdr \<Rightarrow> env list \<Rightarrow> s10_priv \<Rightarrow> ulong \<Rightarrow> (int \<times> s10_priv) option" where
  "s10_ops_write_complete_loop k [] priv timeout = None"
| "s10_ops_write_complete_loop k (e # es) priv timeout =
     (case s10_ops_write_complete_pass k e priv timeout of
        Return ret priv1 \<Rightarrow> Some (ret, priv1)
      | Again (priv1, timeout1) \<Rightarrow> s10_ops_write_complete_loop k es priv1 timeout1)"

definition s10_ops_write_complete ::
  "svc_hdr \<Rightarrow> env list \<Rightarrow> s10_priv \<Rightarrow> (int \<times> s10_priv) option" where
  "s10_ops_write_complete k es priv =
     (case s10_ops_write_complete_loop k es priv (S10_RECONFIG_TIMEOUT k) of
        None \<Rightarrow> None
      | Some (ret, priv1) \<Rightarrow> Some (ret, stratix10_svc_done priv1))"

section \<open>Observations on states and traces\<close>

text \<open>The pool is an array of \<open>NUM_SVC_BUFS\<close> buffers.\<close>

definition pool_ok :: "s10_priv \<Rightarrow> bool" where
  "pool_ok priv = (length (svc_bufs priv) = NUM_SVC_BUFS)"

text \<open>The number of buffers whose lock bit is clear.\<close>

definition free_bufs :: "s10_priv \<Rightarrow> nat" where
  "free_bufs priv = length (filter (\<lambda>b. \<not> bit (lock b) SVC_BUF_LOCK) (svc_bufs priv))"

text \<open>How often \<open>stratix10_svc_done\<close> has been called.\<close>

definition done_calls :: "event list \<Rightarrow> nat" where
  "done_calls tr = length (filter (\<lambda>x. x = SvcDone) tr)"

text \<open>The requests handed to \<open>stratix10_svc_send\<close>, accepted or not.\<close>

fun sends :: "event list \<Rightarrow> event list" where
  "sends [] = []"
| "sends (SvcSend cmd pl len ret # tr) = SvcSend cmd pl len ret # sends tr"
| "sends (x # tr) = sends tr"

text \<open>The payload lengths of the data submissions that the service layer accepted.\<close>

fun submitted :: "event list \<Rightarrow> nat list" where
  "submitted [] = []"
| "submitted (SvcSend cmd pl len ret # tr) =
     (if cmd = COMMAND_RECONFIG_DATA_SUBMIT \<and> 0 \<le> ret
      then unat len # submitted tr else submitted tr)"
| "submitted (x # tr) = submitted tr"

text \<open>The waits, each with its timeout and its result.\<close>

fun waits :: "event list \<Rightarrow> (ulong \<times> ulong) list" where
  "waits [] = []"
| "waits (WaitForCompletion timeout left # tr) = (timeout, left) # waits tr"
| "waits (x # tr) = waits tr"

text \<open>
  Each wait of a sequence starts with the time that the wait before it had left, the
  first one with \<open>t\<close>, and no wait has more time left than it started with.
\<close>

fun budget_chain :: "ulong \<Rightarrow> (ulong \<times> ulong) list \<Rightarrow> bool" where
  "budget_chain t [] = True"
| "budget_chain t ((timeout, left) # ws) =
     (timeout = t \<and> left \<le> timeout \<and> budget_chain left ws)"

text \<open>The events that a notification can cause.\<close>

fun cb_event :: "event \<Rightarrow> bool" where
  "cb_event (DmaUnmapSingle a) = True"
| "cb_event (Warn a) = True"
| "cb_event x = False"

text \<open>The sizes in which \<open>n\<close> bytes go into buffers of \<open>SVC_BUF_SIZE\<close> bytes.\<close>

function chunk_lens :: "nat \<Rightarrow> nat list" where
  "chunk_lens n =
     (if n = 0 then []
      else min n (unat SVC_BUF_SIZE) # chunk_lens (n - min n (unat SVC_BUF_SIZE)))"
  by pat_completeness auto
termination
  by (relation "measure (\<lambda>n. n)") (auto simp add: SVC_BUF_SIZE_def)

text \<open>
  Calls of \<open>s10_send_buf\<close> one after the other, with no notification in between; each
  call has its own arguments and its own answers of the outside.
\<close>

fun s10_send_buf_calls ::
  "(addr \<times> int \<times> addr \<times> ulong) list \<Rightarrow> s10_priv \<Rightarrow> int list \<times> s10_priv" where
  "s10_send_buf_calls [] priv = ([], priv)"
| "s10_send_buf_calls ((dma, send_ret, ubuf, count) # cs) priv =
     (let (r, priv1) = s10_send_buf dma send_ret priv ubuf count;
          (rs, priv2) = s10_send_buf_calls cs priv1
      in (r # rs, priv2))"

text \<open>
  What a call of \<open>s10_send_buf\<close> that has found buffer \<open>j\<close> free copies and sends.
\<close>

definition xfer_size :: "ulong \<Rightarrow> ulong" where
  "xfer_size count = (if count < SVC_BUF_SIZE then count else SVC_BUF_SIZE)"

definition send_buf_events :: "s10_priv \<Rightarrow> nat \<Rightarrow> addr \<Rightarrow> ulong \<Rightarrow> int \<Rightarrow> event list" where
  "send_buf_events priv j ubuf count send_ret =
     [Memcpy (buf (svc_bufs priv ! j)) ubuf (xfer_size count)] @
     (if is_smmu_enabled priv then [DmaMapSingle (buf (svc_bufs priv ! j))] else []) @
     [SvcSend COMMAND_RECONFIG_DATA_SUBMIT (Buffer (buf (svc_bufs priv ! j)))
        (ucast (xfer_size count)) send_ret]"

section \<open>Example states\<close>

text \<open>
  A pool of four buffers at the addresses 0x1000 to 0x4000 with the given lock words, a
  state around it, a notification and a description of the outside.
\<close>

definition ex_buf :: "addr \<Rightarrow> ulong \<Rightarrow> s10_svc_buf" where
  "ex_buf a l = \<lparr>buf = a, dma_addr = 0, lock = l\<rparr>"

definition ex_priv :: "ulong \<Rightarrow> ulong \<Rightarrow> ulong \<Rightarrow> ulong \<Rightarrow> ulong \<Rightarrow> s10_priv" where
  "ex_priv l0 l1 l2 l3 st =
     \<lparr>svc_bufs = [ex_buf 0x1000 l0, ex_buf 0x2000 l1, ex_buf 0x3000 l2, ex_buf 0x4000 l3],
      status = st, fw_version = 0xFFFF, is_smmu_enabled = False,
      receive_cb = Some S10_RECEIVE_CALLBACK, status_return_completion = 0, trace = []\<rparr>"

definition ex_msg :: "u32 \<Rightarrow> addr \<Rightarrow> stratix10_svc_cb_data" where
  "ex_msg st a =
     \<lparr>cb_status = st, kaddr1 = a, kaddr2 = 0, kaddr3 = 0, kaddr4 = 0, kaddr1_val = 0\<rparr>"

definition ex_env ::
  "stratix10_svc_cb_data list \<Rightarrow> int \<Rightarrow> stratix10_svc_cb_data list \<Rightarrow> ulong \<Rightarrow> env" where
  "ex_env as r ms t = \<lparr>e_async = as, e_dma = 0, e_send = r, e_msgs = ms, e_elapsed = t\<rparr>"

text \<open>Four calls of \<open>s10_send_buf\<close> that the service layer accepts.\<close>

definition ex_calls :: "(addr \<times> int \<times> addr \<times> ulong) list" where
  "ex_calls = [(0, 0, 0x9000, 0x80000), (0, 0, 0x89000, 0x80000),
               (0, 0, 0x109000, 0x80000), (0, 0, 0x189000, 7)]"

text \<open>
  The outside during four passes of \<open>s10_ops_write\<close>: the first request is answered
  with \<open>BUFFER_SUBMITTED\<close>, the second with \<open>BUFFER_DONE\<close> for the first buffer, the
  third with \<open>BUFFER_DONE\<close> for the second buffer.
\<close>

definition ex_script :: "env list" where
  "ex_script = [ex_env [] 0 [ex_msg 2 0] 3, ex_env [] 0 [ex_msg 4 0x1000] 3,
                ex_env [] 0 [ex_msg 4 0x2000] 3, ex_env [] 0 [] 3]"

section \<open>Lemmas\<close>

declare s10_unlock_bufs_loop.simps [simp del]
declare s10_send_buf_loop.simps [simp del]
declare s10_get_unlocked_buffer_count_loop.simps [simp del]
declare s10_receive_callback_loop.simps [simp del]
declare s10_free_buffers_loop.simps [simp del]
declare chunk_lens.simps [simp del]

subsection \<open>Bits and conversions\<close>

lemma set_bit_already: "bit (w :: ulong) n \<Longrightarrow> set_bit n w = w"
  by (rule bit_eqI) (auto simp add: bit_simps)

lemma unset_bit_already: "\<not> bit (w :: ulong) n \<Longrightarrow> unset_bit n w = w"
  by (rule bit_eqI) (auto simp add: bit_simps)

lemma unset_bit_set_bit: "\<not> bit (w :: ulong) n \<Longrightarrow> unset_bit n (set_bit n w) = w"
  by (rule bit_eqI) (auto simp add: bit_simps)

lemma ulong_to_int_small:
  assumes "w < 0x80000000"
  shows "ulong_to_int w = uint w"
proof -
  from assms have u: "uint w < 2 ^ 31" by (simp add: word_less_def)
  have "uint (ucast w :: 32 word) = take_bit 32 (uint w)"
    by (simp add: unsigned_ucast_eq)
  also have "\<dots> = uint w"
    using u by (simp add: take_bit_int_eq_self)
  finally have e: "uint (ucast w :: 32 word) = uint w" .
  have "- (2 ^ 31) \<le> (0 :: int)" by simp
  also have "0 \<le> uint w" by simp
  finally have l: "- (2 ^ 31) \<le> uint w" .
  have "sint (ucast w :: 32 word) = signed_take_bit 31 (uint (ucast w :: 32 word))"
    by (simp add: sint_uint)
  also have "\<dots> = uint w"
    unfolding e using u l by (simp add: signed_take_bit_int_eq_self)
  finally show ?thesis by (simp add: ulong_to_int_def)
qed

lemma int_to_ulong_uint: "int_to_ulong (uint w) = w"
  by (simp add: int_to_ulong_def)

lemma all_less_NUM_SVC_BUFS: "(\<forall>i<NUM_SVC_BUFS. P i) \<longleftrightarrow> P 0 \<and> P 1 \<and> P 2 \<and> P 3"
proof -
  have "{i. i < NUM_SVC_BUFS} = {0, 1, 2, 3}"
    by (auto simp add: NUM_SVC_BUFS_def)
  then have "(\<forall>i\<in>{i. i < NUM_SVC_BUFS}. P i) \<longleftrightarrow> (\<forall>i\<in>{0, 1, 2, 3}. P i)"
    by simp
  then show ?thesis by simp
qed

lemma first_free_cases:
  fixes n :: nat
  obtains (none) "\<forall>m<n. P m" | (first) j where "j < n" "\<not> P j" "\<forall>m<j. P m"
proof (cases "\<forall>m<n. P m")
  case True
  then show ?thesis by (rule none)
next
  case False
  then obtain m :: nat where m: "m < n" "\<not> P m" by auto
  define j where "j = (LEAST m. \<not> P m)"
  have nj: "\<not> P j"
    unfolding j_def by (rule LeastI [of "\<lambda>m. \<not> P m" m]) (rule m(2))
  have le: "j \<le> m"
    unfolding j_def by (rule Least_le [of "\<lambda>m. \<not> P m"]) (rule m(2))
  have bef: "\<forall>q<j. P q"
    unfolding j_def using not_less_Least by blast
  from le m(1) have "j < n" by simp
  then show ?thesis using nj bef by (rule first)
qed

subsection \<open>Traces\<close>

lemma done_calls_append [simp]: "done_calls (xs @ ys) = done_calls xs + done_calls ys"
  by (simp add: done_calls_def)

lemma sends_append [simp]: "sends (xs @ ys) = sends xs @ sends ys"
  by (induction xs rule: sends.induct) simp_all

lemma submitted_append [simp]: "submitted (xs @ ys) = submitted xs @ submitted ys"
  by (induction xs rule: submitted.induct) simp_all

lemma waits_append [simp]: "waits (xs @ ys) = waits xs @ waits ys"
  by (induction xs rule: waits.induct) simp_all

lemma cb_events_done_calls: "list_all cb_event xs \<Longrightarrow> done_calls xs = 0"
  by (induction xs) (auto simp add: done_calls_def elim: cb_event.elims)

lemma cb_events_sends: "list_all cb_event xs \<Longrightarrow> sends xs = []"
  by (induction xs) (auto elim: cb_event.elims)

lemma cb_events_submitted: "list_all cb_event xs \<Longrightarrow> submitted xs = []"
  by (induction xs) (auto elim: cb_event.elims)

lemma cb_events_waits: "list_all cb_event xs \<Longrightarrow> waits xs = []"
  by (induction xs) (auto elim: cb_event.elims)

lemma s10_unlock_bufs_loop_frame:
  "\<exists>bufs xs. s10_unlock_bufs_loop i priv kaddr =
                priv\<lparr>svc_bufs := bufs, trace := trace priv @ xs\<rparr> \<and>
              length bufs = length (svc_bufs priv) \<and> list_all cb_event xs"
proof (induction i priv kaddr rule: s10_unlock_bufs_loop.induct)
  case (1 i priv kaddr)
  show ?case
  proof (cases "i < NUM_SVC_BUFS")
    case False
    then have "s10_unlock_bufs_loop i priv kaddr =
          priv\<lparr>svc_bufs := svc_bufs priv, trace := trace priv @ [Warn kaddr]\<rparr>"
      by (subst s10_unlock_bufs_loop.simps) simp
    moreover have "list_all cb_event [Warn kaddr]" by simp
    ultimately show ?thesis by blast
  next
    case True
    show ?thesis
    proof (cases "buf (svc_bufs priv ! i) = kaddr")
      case False
      with True "1.IH" show ?thesis
        by (subst s10_unlock_bufs_loop.simps) (simp add: Let_def)
    next
      case eq: True
      let ?b = "svc_bufs priv ! i"
      let ?bufs = "(svc_bufs priv)[i := ?b\<lparr>lock := clear_bit_unlock SVC_BUF_LOCK (lock ?b)\<rparr>]"
      let ?xs = "if is_smmu_enabled priv then [DmaUnmapSingle (dma_addr ?b)] else []"
      have "s10_unlock_bufs_loop i priv kaddr =
            priv\<lparr>svc_bufs := ?bufs, trace := trace priv @ ?xs\<rparr>"
        using True eq by (subst s10_unlock_bufs_loop.simps) (simp add: Let_def)
      moreover have "length ?bufs = length (svc_bufs priv)" by simp
      moreover have "list_all cb_event ?xs" by simp
      ultimately show ?thesis by blast
    qed
  qed
qed

lemma s10_unlock_bufs_frame:
  "\<exists>bufs xs. s10_unlock_bufs priv kaddr =
                priv\<lparr>svc_bufs := bufs, trace := trace priv @ xs\<rparr> \<and>
              length bufs = length (svc_bufs priv) \<and> list_all cb_event xs"
proof (cases "kaddr = 0")
  case True
  have "priv = priv\<lparr>svc_bufs := svc_bufs priv, trace := trace priv @ []\<rparr>" by simp
  then have "s10_unlock_bufs priv kaddr =
             priv\<lparr>svc_bufs := svc_bufs priv, trace := trace priv @ []\<rparr>"
    using True by (simp add: s10_unlock_bufs_def)
  moreover have "list_all cb_event []" by simp
  ultimately show ?thesis by blast
next
  case False
  then show ?thesis
    using s10_unlock_bufs_loop_frame [of 0 priv kaddr] by (simp add: s10_unlock_bufs_def)
qed

lemma s10_receive_callback_frame:
  "\<exists>bufs xs. s10_receive_callback k priv data =
       priv\<lparr>svc_bufs := bufs,
            status := s10_receive_callback_loop k 0 (cb_status data) (status priv),
            status_return_completion := Suc (status_return_completion priv),
            trace := trace priv @ xs\<rparr> \<and>
     length bufs = length (svc_bufs priv) \<and> list_all cb_event xs"
proof -
  define p1 where "p1 = priv\<lparr>status := s10_receive_callback_loop k 0 (cb_status data) (status priv)\<rparr>"
  obtain b1 x1 where u1: "s10_unlock_bufs p1 (kaddr1 data) = p1\<lparr>svc_bufs := b1, trace := trace p1 @ x1\<rparr>"
    "length b1 = length (svc_bufs p1)" "list_all cb_event x1"
    using s10_unlock_bufs_frame by blast
  define p2 where "p2 = s10_unlock_bufs p1 (kaddr1 data)"
  obtain b2 x2 where u2: "s10_unlock_bufs p2 (kaddr2 data) = p2\<lparr>svc_bufs := b2, trace := trace p2 @ x2\<rparr>"
    "length b2 = length (svc_bufs p2)" "list_all cb_event x2"
    using s10_unlock_bufs_frame by blast
  define p3 where "p3 = s10_unlock_bufs p2 (kaddr2 data)"
  obtain b3 x3 where u3: "s10_unlock_bufs p3 (kaddr3 data) = p3\<lparr>svc_bufs := b3, trace := trace p3 @ x3\<rparr>"
    "length b3 = length (svc_bufs p3)" "list_all cb_event x3"
    using s10_unlock_bufs_frame by blast
  define p4 where "p4 = s10_unlock_bufs p3 (kaddr3 data)"
  obtain b4 x4 where u4: "s10_unlock_bufs p4 (kaddr4 data) = p4\<lparr>svc_bufs := b4, trace := trace p4 @ x4\<rparr>"
    "length b4 = length (svc_bufs p4)" "list_all cb_event x4"
    using s10_unlock_bufs_frame by blast
  have e4: "s10_unlock_bufs p4 (kaddr4 data) =
            p1\<lparr>svc_bufs := b4, trace := trace p1 @ (x1 @ x2 @ x3 @ x4)\<rparr>"
    using u1(1) u2(1) u3(1) u4(1) by (simp add: p2_def p3_def p4_def)
  have l4: "length b4 = length (svc_bufs priv)"
    using u1 u2 u3 u4 by (simp add: p1_def p2_def p3_def p4_def)
  have a4: "list_all cb_event (x1 @ x2 @ x3 @ x4)"
    using u1(3) u2(3) u3(3) u4(3) by simp
  show ?thesis
  proof (cases "ucast (cb_status data) AND BIT (SVC_STATUS_BUFFER_DONE k) \<noteq> (0 :: ulong)")
    case True
    then have "s10_receive_callback k priv data = complete (s10_unlock_bufs p4 (kaddr4 data))"
      by (simp add: s10_receive_callback_def Let_def p1_def p2_def p3_def p4_def)
    then have "s10_receive_callback k priv data =
       priv\<lparr>svc_bufs := b4,
            status := s10_receive_callback_loop k 0 (cb_status data) (status priv),
            status_return_completion := Suc (status_return_completion priv),
            trace := trace priv @ (x1 @ x2 @ x3 @ x4)\<rparr>"
      by (simp add: e4 complete_def p1_def)
    with l4 a4 show ?thesis by blast
  next
    case False
    then have "s10_receive_callback k priv data =
       priv\<lparr>svc_bufs := svc_bufs priv,
            status := s10_receive_callback_loop k 0 (cb_status data) (status priv),
            status_return_completion := Suc (status_return_completion priv),
            trace := trace priv @ []\<rparr>"
      by (simp add: s10_receive_callback_def Let_def complete_def)
    moreover have "list_all cb_event []" by simp
    ultimately show ?thesis by blast
  qed
qed

lemma deliver_frame:
  "\<exists>xs. trace (deliver k ms priv) = trace priv @ xs \<and> list_all cb_event xs \<and>
        length (svc_bufs (deliver k ms priv)) = length (svc_bufs priv) \<and>
        receive_cb (deliver k ms priv) = receive_cb priv \<and>
        is_smmu_enabled (deliver k ms priv) = is_smmu_enabled priv"
proof (induction ms arbitrary: priv)
  case Nil
  have "list_all cb_event []" by simp
  then show ?case by auto
next
  case (Cons d ms)
  define p1 where "p1 = (case receive_cb priv of
          None \<Rightarrow> priv
        | Some S10_FW_VERSION_CALLBACK \<Rightarrow> s10_fw_version_callback k priv d
        | Some S10_RECEIVE_CALLBACK \<Rightarrow> s10_receive_callback k priv d)"
  have "\<exists>xs. trace p1 = trace priv @ xs \<and> list_all cb_event xs \<and>
        length (svc_bufs p1) = length (svc_bufs priv) \<and> receive_cb p1 = receive_cb priv \<and>
        is_smmu_enabled p1 = is_smmu_enabled priv"
  proof (cases "receive_cb priv")
    case None
    have "list_all cb_event []" by simp
    with None show ?thesis by (auto simp add: p1_def)
  next
    case (Some c)
    show ?thesis
    proof (cases c)
      case S10_FW_VERSION_CALLBACK
      have "list_all cb_event []" by simp
      with Some S10_FW_VERSION_CALLBACK show ?thesis
        by (auto simp add: p1_def s10_fw_version_callback_def complete_def)
    next
      case S10_RECEIVE_CALLBACK
      obtain bufs xs where "s10_receive_callback k priv d =
         priv\<lparr>svc_bufs := bufs,
            status := s10_receive_callback_loop k 0 (cb_status d) (status priv),
            status_return_completion := Suc (status_return_completion priv),
            trace := trace priv @ xs\<rparr>" "length bufs = length (svc_bufs priv)"
          "list_all cb_event xs"
        using s10_receive_callback_frame by blast
      with Some S10_RECEIVE_CALLBACK show ?thesis
        by (auto simp add: p1_def)
    qed
  qed
  then obtain xs where xs: "trace p1 = trace priv @ xs" "list_all cb_event xs"
        "length (svc_bufs p1) = length (svc_bufs priv)" "receive_cb p1 = receive_cb priv"
        "is_smmu_enabled p1 = is_smmu_enabled priv"
    by blast
  from Cons.IH [of p1] obtain ys where ys: "trace (deliver k ms p1) = trace p1 @ ys"
        "list_all cb_event ys"
        "length (svc_bufs (deliver k ms p1)) = length (svc_bufs p1)"
        "receive_cb (deliver k ms p1) = receive_cb p1"
        "is_smmu_enabled (deliver k ms p1) = is_smmu_enabled p1"
    by blast
  have d: "deliver k (d # ms) priv = deliver k ms p1" by (simp add: p1_def)
  have "trace (deliver k (d # ms) priv) = trace priv @ (xs @ ys)"
    using xs ys d by simp
  moreover have "list_all cb_event (xs @ ys)" using xs ys by simp
  ultimately show ?case using xs ys d by metis
qed

lemma deliver_done_calls [simp]: "done_calls (trace (deliver k ms priv)) = done_calls (trace priv)"
  using deliver_frame [of k ms priv] by (auto simp add: cb_events_done_calls)

lemma deliver_sends [simp]: "sends (trace (deliver k ms priv)) = sends (trace priv)"
  using deliver_frame [of k ms priv] by (auto simp add: cb_events_sends)

lemma deliver_submitted [simp]: "submitted (trace (deliver k ms priv)) = submitted (trace priv)"
  using deliver_frame [of k ms priv] by (auto simp add: cb_events_submitted)

lemma deliver_waits [simp]: "waits (trace (deliver k ms priv)) = waits (trace priv)"
  using deliver_frame [of k ms priv] by (auto simp add: cb_events_waits)

subsection \<open>The scan for a free buffer\<close>

lemma relock_same:
  "bit (lock (svc_bufs priv ! i)) SVC_BUF_LOCK \<Longrightarrow>
   priv\<lparr>svc_bufs := (svc_bufs priv)[i := (svc_bufs priv ! i)
      \<lparr>lock := set_bit SVC_BUF_LOCK (lock (svc_bufs priv ! i))\<rparr>]\<rparr> = priv"
  by (simp add: set_bit_already)

lemma s10_send_buf_loop_locked:
  "\<forall>m. i \<le> m \<and> m < NUM_SVC_BUFS \<longrightarrow> bit (lock (svc_bufs priv ! m)) SVC_BUF_LOCK \<Longrightarrow>
   i \<le> NUM_SVC_BUFS \<Longrightarrow>
   s10_send_buf_loop i priv = (NUM_SVC_BUFS, priv)"
proof (induction "NUM_SVC_BUFS - i" arbitrary: i)
  case 0
  then show ?case by (subst s10_send_buf_loop.simps) simp
next
  case (Suc n)
  then have lt: "i < NUM_SVC_BUFS" and lk: "bit (lock (svc_bufs priv ! i)) SVC_BUF_LOCK"
    by auto
  have "s10_send_buf_loop (i + 1) priv = (NUM_SVC_BUFS, priv)"
    using Suc by auto
  with lt lk show ?case
    by (subst s10_send_buf_loop.simps)
       (simp add: test_and_set_bit_lock_def Let_def relock_same)
qed

lemma s10_send_buf_loop_free:
  "\<forall>m. i \<le> m \<and> m < j \<longrightarrow> bit (lock (svc_bufs priv ! m)) SVC_BUF_LOCK \<Longrightarrow>
   \<not> bit (lock (svc_bufs priv ! j)) SVC_BUF_LOCK \<Longrightarrow> i \<le> j \<Longrightarrow> j < NUM_SVC_BUFS \<Longrightarrow>
   s10_send_buf_loop i priv =
     (j, priv\<lparr>svc_bufs := (svc_bufs priv)[j := (svc_bufs priv ! j)
              \<lparr>lock := set_bit SVC_BUF_LOCK (lock (svc_bufs priv ! j))\<rparr>]\<rparr>)"
proof (induction "j - i" arbitrary: i)
  case 0
  then have "i = j" by simp
  with 0 show ?case
    by (subst s10_send_buf_loop.simps) (simp add: test_and_set_bit_lock_def Let_def)
next
  case (Suc n)
  then have lt: "i < NUM_SVC_BUFS" and lk: "bit (lock (svc_bufs priv ! i)) SVC_BUF_LOCK"
    by auto
  have "s10_send_buf_loop (i + 1) priv =
     (j, priv\<lparr>svc_bufs := (svc_bufs priv)[j := (svc_bufs priv ! j)
              \<lparr>lock := set_bit SVC_BUF_LOCK (lock (svc_bufs priv ! j))\<rparr>]\<rparr>)"
    using Suc by auto
  with lt lk show ?case
    by (subst s10_send_buf_loop.simps)
       (simp add: test_and_set_bit_lock_def Let_def relock_same)
qed

text \<open>The two outcomes of \<open>s10_send_buf\<close>: no buffer is free, or buffer \<open>j\<close> is the first.\<close>

lemma s10_send_buf_exhausted:
  assumes "\<forall>m<NUM_SVC_BUFS. bit (lock (svc_bufs priv ! m)) SVC_BUF_LOCK"
  shows "s10_send_buf dma send_ret priv ubuf count = (- ENOBUFS, priv)"
proof -
  have "s10_send_buf_loop 0 priv = (NUM_SVC_BUFS, priv)"
    using assms by (intro s10_send_buf_loop_locked) simp_all
  then show ?thesis by (simp add: s10_send_buf_def)
qed

lemma s10_send_buf_first_free:
  assumes j: "j < NUM_SVC_BUFS" and free: "\<not> bit (lock (svc_bufs priv ! j)) SVC_BUF_LOCK"
    and before: "\<forall>m<j. bit (lock (svc_bufs priv ! m)) SVC_BUF_LOCK"
    and ok: "pool_ok priv"
  shows "s10_send_buf dma send_ret priv ubuf count =
     (if send_ret < 0
      then (send_ret,
            priv\<lparr>svc_bufs := (svc_bufs priv)[j :=
                    (svc_bufs priv ! j)\<lparr>dma_addr :=
                       if is_smmu_enabled priv then dma else dma_addr (svc_bufs priv ! j)\<rparr>],
                 receive_cb := Some S10_RECEIVE_CALLBACK,
                 trace := trace priv @ send_buf_events priv j ubuf count send_ret\<rparr>)
      else (ulong_to_int (xfer_size count),
            priv\<lparr>svc_bufs := (svc_bufs priv)[j :=
                    (svc_bufs priv ! j)\<lparr>lock := set_bit SVC_BUF_LOCK (lock (svc_bufs priv ! j)),
                       dma_addr :=
                         if is_smmu_enabled priv then dma else dma_addr (svc_bufs priv ! j)\<rparr>],
                 receive_cb := Some S10_RECEIVE_CALLBACK,
                 trace := trace priv @ send_buf_events priv j ubuf count send_ret\<rparr>))"
proof -
  have l: "s10_send_buf_loop 0 priv =
     (j, priv\<lparr>svc_bufs := (svc_bufs priv)[j := (svc_bufs priv ! j)
              \<lparr>lock := set_bit SVC_BUF_LOCK (lock (svc_bufs priv ! j))\<rparr>]\<rparr>)"
    using before free j by (intro s10_send_buf_loop_free) simp_all
  have len: "j < length (svc_bufs priv)" using j ok by (simp add: pool_ok_def)
  have ne: "j \<noteq> NUM_SVC_BUFS" using j by simp
  show ?thesis
    using len ne free
    by (simp add: s10_send_buf_def l Let_def s10_svc_send_msg_def clear_bit_unlock_def
        unset_bit_set_bit xfer_size_def send_buf_events_def)
qed

lemma xfer_size_le: "xfer_size count \<le> SVC_BUF_SIZE"
  by (auto simp add: xfer_size_def intro: order.strict_implies_order)

lemma xfer_size_small: "xfer_size count < 0x80000000"
proof -
  have "xfer_size count \<le> SVC_BUF_SIZE" by (rule xfer_size_le)
  also have "SVC_BUF_SIZE < 0x80000000" by (simp add: SVC_BUF_SIZE_def)
  finally show ?thesis .
qed

lemma ulong_to_int_xfer_size: "ulong_to_int (xfer_size count) = uint (xfer_size count)"
  by (rule ulong_to_int_small) (rule xfer_size_small)

lemma ulong_to_int_xfer_size_nonneg: "0 \<le> ulong_to_int (xfer_size count)"
  by (simp add: ulong_to_int_xfer_size)

lemma s10_get_unlocked_buffer_count_locks:
  assumes "pool_ok priv"
  shows "s10_get_unlocked_buffer_count priv =
         length (filter (\<lambda>l. l = 0) (map lock (svc_bufs priv)))"
proof -
  from assms obtain a b c d where bufs: "svc_bufs priv = [a, b, c, d]"
    by (auto simp add: pool_ok_def NUM_SVC_BUFS_def length_Suc_conv numeral_eq_Suc)
  show ?thesis
    unfolding s10_get_unlocked_buffer_count_def
    apply (subst s10_get_unlocked_buffer_count_loop.simps)
    apply (subst s10_get_unlocked_buffer_count_loop.simps)
    apply (subst s10_get_unlocked_buffer_count_loop.simps)
    apply (subst s10_get_unlocked_buffer_count_loop.simps)
    apply (subst s10_get_unlocked_buffer_count_loop.simps)
    apply (simp add: bufs NUM_SVC_BUFS_def)
    done
qed

lemma free_bufs_locks:
  "free_bufs priv = length (filter (\<lambda>l. \<not> bit l SVC_BUF_LOCK) (map lock (svc_bufs priv)))"
  by (simp add: free_bufs_def filter_map comp_def)

lemma filter_update_drop:
  "j < length xs \<Longrightarrow> P (xs ! j) \<Longrightarrow> \<not> P x \<Longrightarrow>
   Suc (length (filter P (xs[j := x]))) = length (filter P xs)"
proof (induction xs arbitrary: j)
  case Nil
  then show ?case by simp
next
  case (Cons a xs)
  then show ?case by (cases j) auto
qed

subsection \<open>The passes of \<open>s10_ops_write\<close>\<close>

lemma xfer_size_min: "xfer_size count = min count SVC_BUF_SIZE"
  by (auto simp add: xfer_size_def min_def)

lemma xfer_size_le_count: "xfer_size count \<le> count"
  by (simp add: xfer_size_min)

lemma xfer_size_pos: "0 < count \<Longrightarrow> 0 < xfer_size count"
  by (simp add: xfer_size_def SVC_BUF_SIZE_def)

lemma unat_ucast_xfer_size: "unat (ucast (xfer_size count) :: u32) = unat (xfer_size count)"
proof -
  have "xfer_size count < 0x80000000" by (rule xfer_size_small)
  then have "unat (xfer_size count) < 2 ^ 32"
    by (simp add: word_less_nat_alt)
  moreover have "unat (ucast (xfer_size count) :: u32) = take_bit 32 (unat (xfer_size count))"
    by (simp add: unsigned_ucast_eq)
  ultimately show ?thesis
    by (simp add: take_bit_nat_eq_self)
qed

lemma s10_send_buf_loop_trace: "trace (snd (s10_send_buf_loop i priv)) = trace priv \<and>
    is_smmu_enabled (snd (s10_send_buf_loop i priv)) = is_smmu_enabled priv"
proof (induction "NUM_SVC_BUFS - i" arbitrary: i)
  case 0
  then show ?case by (subst (1 2) s10_send_buf_loop.simps) simp
next
  case (Suc n)
  then have lt: "i < NUM_SVC_BUFS" by simp
  show ?case
  proof (cases "bit (lock (svc_bufs priv ! i)) SVC_BUF_LOCK")
    case False
    with lt show ?thesis
      by (subst (1 2) s10_send_buf_loop.simps) (simp add: test_and_set_bit_lock_def Let_def)
  next
    case True
    have "trace (snd (s10_send_buf_loop (i + 1) priv)) = trace priv \<and>
        is_smmu_enabled (snd (s10_send_buf_loop (i + 1) priv)) = is_smmu_enabled priv"
      using Suc by auto
    with lt True show ?thesis
      by (subst (1 2) s10_send_buf_loop.simps)
         (simp add: test_and_set_bit_lock_def Let_def relock_same)
  qed
qed

text \<open>What a call of \<open>s10_send_buf\<close> adds to the trace, and what it returns.\<close>

lemma s10_send_buf_trace:
  assumes "s10_send_buf dma send_ret priv ubuf count = (r, priv')"
  shows "(r = - ENOBUFS \<and> trace priv' = trace priv) \<or>
         (\<exists>b. trace priv' = trace priv @ [Memcpy b ubuf (xfer_size count)] @
                  (if is_smmu_enabled priv then [DmaMapSingle b] else []) @
                  [SvcSend COMMAND_RECONFIG_DATA_SUBMIT (Buffer b) (ucast (xfer_size count))
                     send_ret] \<and>
              r = (if send_ret < 0 then send_ret else ulong_to_int (xfer_size count)))"
proof -
  obtain i p1 where l: "s10_send_buf_loop 0 priv = (i, p1)"
    by (cases "s10_send_buf_loop 0 priv") auto
  from s10_send_buf_loop_trace [of 0 priv] l
  have t: "trace p1 = trace priv" and s: "is_smmu_enabled p1 = is_smmu_enabled priv"
    by auto
  show ?thesis
  proof (cases "i = NUM_SVC_BUFS")
    case True
    with assms l t show ?thesis by (simp add: s10_send_buf_def)
  next
    case False
    with assms l t s show ?thesis
      by (auto simp add: s10_send_buf_def Let_def s10_svc_send_msg_def xfer_size_def
          split: if_splits)
  qed
qed

lemma s10_send_buf_submitted:
  assumes "s10_send_buf dma send_ret priv ubuf count = (r, priv')"
  shows "submitted (trace priv') =
         submitted (trace priv) @ (if 0 \<le> r then [unat (xfer_size count)] else [])"
    and "0 \<le> r \<Longrightarrow> r = uint (xfer_size count)"
proof -
  from s10_send_buf_trace [OF assms]
  show "submitted (trace priv') =
         submitted (trace priv) @ (if 0 \<le> r then [unat (xfer_size count)] else [])"
    using ulong_to_int_xfer_size_nonneg [of count]
    by (auto simp add: ENOBUFS_def unat_ucast_xfer_size split: if_splits)
  from s10_send_buf_trace [OF assms]
  show "0 \<le> r \<Longrightarrow> r = uint (xfer_size count)"
    by (auto simp add: ENOBUFS_def ulong_to_int_xfer_size split: if_splits)
qed

lemma wait_for_completion_timeout_trace:
  "trace (snd (wait_for_completion_timeout elapsed priv timeout)) =
   trace priv @ [WaitForCompletion timeout (fst (wait_for_completion_timeout elapsed priv timeout))]"
  by (simp add: wait_for_completion_timeout_def Let_def)

text \<open>The checks after the wait, with the status bits read before they are cleared.\<close>

lemma s10_ops_write_wait_cases:
  assumes "wait_for_completion_timeout (e_elapsed e) (deliver k (e_msgs e) priv)
             (S10_BUFFER_TIMEOUT k) = (w, p1)"
  shows "s10_ops_write_wait k e priv ubuf count =
    (if bit (status p1) (SVC_STATUS_BUFFER_DONE k)
     then Again (p1\<lparr>status := unset_bit (SVC_STATUS_BUFFER_DONE k) (status p1)\<rparr>, ubuf, count)
     else if bit (status p1) (SVC_STATUS_BUFFER_SUBMITTED k)
     then Again (p1\<lparr>status := unset_bit (SVC_STATUS_BUFFER_SUBMITTED k) (status p1)\<rparr>,
                 ubuf, count)
     else if bit (status p1) (SVC_STATUS_ERROR k)
     then Return (- EFAULT) (p1\<lparr>status := unset_bit (SVC_STATUS_ERROR k) (status p1)\<rparr>)
     else if w = 0 then Return (- ETIMEDOUT) p1
     else Again (p1, ubuf, count))"
  using assms
  by (simp add: s10_ops_write_wait_def test_and_clear_bit_def Let_def unset_bit_already)

lemma s10_ops_write_wait_trace:
  "s10_ops_write_wait k e priv ubuf count = Return r p \<Longrightarrow>
     r < 0 \<and> (\<exists>t w. trace p = trace (deliver k (e_msgs e) priv) @ [WaitForCompletion t w])"
  "s10_ops_write_wait k e priv ubuf count = Again (p, u, c) \<Longrightarrow>
     u = ubuf \<and> c = count \<and>
     (\<exists>t w. trace p = trace (deliver k (e_msgs e) priv) @ [WaitForCompletion t w])"
proof -
  obtain w p1 where w: "wait_for_completion_timeout (e_elapsed e) (deliver k (e_msgs e) priv)
             (S10_BUFFER_TIMEOUT k) = (w, p1)"
    by (cases "wait_for_completion_timeout (e_elapsed e) (deliver k (e_msgs e) priv)
             (S10_BUFFER_TIMEOUT k)") auto
  from wait_for_completion_timeout_trace
    [of "e_elapsed e" "deliver k (e_msgs e) priv" "S10_BUFFER_TIMEOUT k"] w
  have t: "trace p1 = trace (deliver k (e_msgs e) priv) @ [WaitForCompletion (S10_BUFFER_TIMEOUT k) w]"
    by simp
  show "s10_ops_write_wait k e priv ubuf count = Return r p \<Longrightarrow>
     r < 0 \<and> (\<exists>t w. trace p = trace (deliver k (e_msgs e) priv) @ [WaitForCompletion t w])"
    using t by (auto simp add: s10_ops_write_wait_cases [OF w] EFAULT_def ETIMEDOUT_def
        split: if_splits)
  show "s10_ops_write_wait k e priv ubuf count = Again (p, u, c) \<Longrightarrow>
     u = ubuf \<and> c = count \<and>
     (\<exists>t w. trace p = trace (deliver k (e_msgs e) priv) @ [WaitForCompletion t w])"
    using t by (auto simp add: s10_ops_write_wait_cases [OF w] split: if_splits)
qed

lemma s10_ops_write_wait_submitted:
  "s10_ops_write_wait k e priv ubuf count = Return r p \<Longrightarrow>
     r < 0 \<and> submitted (trace p) = submitted (trace priv) \<and> sends (trace p) = sends (trace priv)"
  "s10_ops_write_wait k e priv ubuf count = Again (p, u, c) \<Longrightarrow>
     u = ubuf \<and> c = count \<and> submitted (trace p) = submitted (trace priv) \<and>
     sends (trace p) = sends (trace priv)"
  using s10_ops_write_wait_trace [of k e priv ubuf count] by auto

lemma reinit_completion_trace [simp]: "trace (reinit_completion priv) = trace priv"
  by (simp add: reinit_completion_def)

lemma s10_ops_write_pass_submitted:
  "s10_ops_write_pass k e priv ubuf count = Return r p \<Longrightarrow> r = 0 \<Longrightarrow>
     count = 0 \<and> submitted (trace p) = submitted (trace priv)"
  "s10_ops_write_pass k e priv ubuf count = Again (p, u, c) \<Longrightarrow>
     (u = ubuf \<and> c = count \<and> submitted (trace p) = submitted (trace priv)) \<or>
     (0 < count \<and> u = ubuf + xfer_size count \<and> c = count - xfer_size count \<and>
      submitted (trace p) = submitted (trace priv) @ [unat (xfer_size count)])"
proof -
  define priv1 where "priv1 = reinit_completion (deliver k (e_async e) priv)"
  have s1: "submitted (trace priv1) = submitted (trace priv)"
    by (simp add: priv1_def)
  obtain sent p2 where sb: "s10_send_buf (e_dma e) (e_send e) priv1 ubuf count = (sent, p2)"
    by (cases "s10_send_buf (e_dma e) (e_send e) priv1 ubuf count") auto
  note sub = s10_send_buf_submitted [OF sb]
  have pos: "0 < count \<Longrightarrow> s10_ops_write_pass k e priv ubuf count =
      (if sent < 0 then Again (p2, ubuf, count)
       else s10_ops_write_wait k e p2 (ubuf + xfer_size count) (count - xfer_size count))"
  proof (cases "sent < 0")
    case True
    assume "0 < count"
    with True sb show ?thesis
      by (simp add: s10_ops_write_pass_def Let_def priv1_def)
  next
    case False
    then have "int_to_ulong sent = xfer_size count"
      using sub(2) by (simp add: int_to_ulong_uint)
    moreover assume "0 < count"
    ultimately show ?thesis using False sb
      by (simp add: s10_ops_write_pass_def Let_def priv1_def)
  qed
  obtain ret p3 where sm: "s10_svc_send_msg (e_send e) priv1 COMMAND_RECONFIG_DATA_CLAIM
                                 NoPayload 0 S10_RECEIVE_CALLBACK = (ret, p3)"
    by (cases "s10_svc_send_msg (e_send e) priv1 COMMAND_RECONFIG_DATA_CLAIM
                                 NoPayload 0 S10_RECEIVE_CALLBACK") auto
  then have s3: "submitted (trace p3) = submitted (trace priv)"
    using s1 by (auto simp add: s10_svc_send_msg_def Let_def)
  have zero: "count = 0 \<Longrightarrow> s10_ops_write_pass k e priv ubuf count =
      (if s10_get_unlocked_buffer_count priv1 = NUM_SVC_BUFS then Return 0 priv1
       else if ret < 0 then Return ret p3 else s10_ops_write_wait k e p3 ubuf count)"
    using sm by (simp add: s10_ops_write_pass_def Let_def priv1_def)
  show "s10_ops_write_pass k e priv ubuf count = Return r p \<Longrightarrow> r = 0 \<Longrightarrow>
     count = 0 \<and> submitted (trace p) = submitted (trace priv)"
  proof (cases "count = 0")
    case True
    assume "s10_ops_write_pass k e priv ubuf count = Return r p" "r = 0"
    with zero [OF True] True s1 s3 s10_ops_write_wait_submitted(1) [of k e p3 ubuf count r p]
    show ?thesis by (auto split: if_splits)
  next
    case False
    then have "0 < count" by (simp add: word_greater_zero_iff)
    assume "s10_ops_write_pass k e priv ubuf count = Return r p" "r = 0"
    with pos [OF \<open>0 < count\<close>]
      s10_ops_write_wait_submitted(1)
        [of k e p2 "ubuf + xfer_size count" "count - xfer_size count" r p]
    show ?thesis by (auto split: if_splits)
  qed
  show "s10_ops_write_pass k e priv ubuf count = Again (p, u, c) \<Longrightarrow>
     (u = ubuf \<and> c = count \<and> submitted (trace p) = submitted (trace priv)) \<or>
     (0 < count \<and> u = ubuf + xfer_size count \<and> c = count - xfer_size count \<and>
      submitted (trace p) = submitted (trace priv) @ [unat (xfer_size count)])"
  proof (cases "count = 0")
    case True
    assume "s10_ops_write_pass k e priv ubuf count = Again (p, u, c)"
    with zero [OF True] s3 s10_ops_write_wait_submitted(2) [of k e p3 ubuf count p u c]
    show ?thesis by (auto split: if_splits)
  next
    case False
    then have c: "0 < count" by (simp add: word_greater_zero_iff)
    assume a: "s10_ops_write_pass k e priv ubuf count = Again (p, u, c)"
    show ?thesis
    proof (cases "sent < 0")
      case True
      with a pos [OF c] sub(1) s1 show ?thesis by auto
    next
      case False
      with a pos [OF c]
      have "s10_ops_write_wait k e p2 (ubuf + xfer_size count) (count - xfer_size count) =
            Again (p, u, c)" by simp
      from s10_ops_write_wait_submitted(2) [OF this] False sub(1) s1 c
      show ?thesis by auto
    qed
  qed
qed

lemma unat_xfer_size: "unat (xfer_size count) = min (unat count) (unat SVC_BUF_SIZE)"
  by (auto simp add: xfer_size_def word_less_nat_alt min_def)

lemma unat_minus_xfer_size:
  "unat (count - xfer_size count) = unat count - min (unat count) (unat SVC_BUF_SIZE)"
  using xfer_size_le_count [of count] by (simp add: unat_sub unat_xfer_size)

lemma chunk_lens_0: "chunk_lens 0 = []"
  by (subst chunk_lens.simps) simp

lemma chunk_lens_pos:
  "0 < n \<Longrightarrow> chunk_lens n =
     min n (unat SVC_BUF_SIZE) # chunk_lens (n - min n (unat SVC_BUF_SIZE))"
  by (subst chunk_lens.simps) simp

lemma chunk_lens_full: "chunk_lens (n * unat SVC_BUF_SIZE) = replicate n (unat SVC_BUF_SIZE)"
proof (induction n)
  case 0
  then show ?case by (simp add: chunk_lens_0)
next
  case (Suc n)
  have "0 < Suc n * unat SVC_BUF_SIZE" by (simp add: SVC_BUF_SIZE_def)
  then show ?case using Suc by (simp add: chunk_lens_pos)
qed

lemma chunk_lens_one_more: "chunk_lens (unat SVC_BUF_SIZE + 1) = [unat SVC_BUF_SIZE, 1]"
proof -
  have "chunk_lens (unat SVC_BUF_SIZE + 1) = unat SVC_BUF_SIZE # chunk_lens 1"
    by (simp add: chunk_lens_pos)
  also have "chunk_lens 1 = [1]"
    by (simp add: chunk_lens_pos chunk_lens_0 SVC_BUF_SIZE_def)
  finally show ?thesis .
qed

lemma s10_ops_write_loop_submitted:
  "s10_ops_write_loop k es priv ubuf count = Some (0, priv') \<Longrightarrow>
   submitted (trace priv') = submitted (trace priv) @ chunk_lens (unat count)"
proof (induction es arbitrary: priv ubuf count)
  case Nil
  then show ?case by simp
next
  case (Cons e es)
  show ?case
  proof (cases "s10_ops_write_pass k e priv ubuf count")
    case (Return r p)
    with Cons.prems have "r = 0" and "p = priv'" by auto
    with s10_ops_write_pass_submitted(1) [OF Return] show ?thesis
      by (simp add: chunk_lens_0)
  next
    case (Again x)
    obtain p u c where x: "x = (p, u, c)" by (cases x) auto
    with Again Cons.prems have "s10_ops_write_loop k es p u c = Some (0, priv')" by simp
    from Cons.IH [OF this]
    have ih: "submitted (trace priv') = submitted (trace p) @ chunk_lens (unat c)" .
    from s10_ops_write_pass_submitted(2) [of k e priv ubuf count p u c] Again x
    consider "c = count" "submitted (trace p) = submitted (trace priv)"
      | "0 < count" "c = count - xfer_size count"
        "submitted (trace p) = submitted (trace priv) @ [unat (xfer_size count)]"
      by auto
    then show ?thesis
    proof cases
      case 1
      with ih show ?thesis by simp
    next
      case 2
      from 2(1) have "0 < unat count" by (simp add: word_less_nat_alt)
      then have "chunk_lens (unat count) =
        min (unat count) (unat SVC_BUF_SIZE) #
        chunk_lens (unat count - min (unat count) (unat SVC_BUF_SIZE))"
        by (rule chunk_lens_pos)
      with ih 2 show ?thesis
        by (simp add: unat_xfer_size unat_minus_xfer_size)
    qed
  qed
qed

subsection \<open>More on traces\<close>

lemma done_calls_Nil [simp]: "done_calls [] = 0"
  by (simp add: done_calls_def)

lemma done_calls_SvcDone [simp]: "done_calls [SvcDone] = 1"
  by (simp add: done_calls_def)

lemma done_calls_SvcSend [simp]: "done_calls (SvcSend cmd pl len ret # xs) = done_calls xs"
  by (simp add: done_calls_def)

lemma done_calls_WaitForCompletion [simp]:
  "done_calls (WaitForCompletion t w # xs) = done_calls xs"
  by (simp add: done_calls_def)

lemma wait_for_completion_timeout_frame:
  assumes "wait_for_completion_timeout elapsed priv timeout = (w, p)"
  shows "trace p = trace priv @ [WaitForCompletion timeout w]"
    and "status p = status priv"
    and "w = 0 \<or> (elapsed < timeout \<and> w = timeout - elapsed) \<or> w = 1"
    and "svc_bufs p = svc_bufs priv"
  using assms by (auto simp add: wait_for_completion_timeout_def Let_def split: if_splits)



lemma pool_ok_reinit_completion [simp]: "pool_ok (reinit_completion priv) = pool_ok priv"
  by (simp add: pool_ok_def reinit_completion_def)


section \<open>The claims\<close>

subsection \<open>C5: a returned handle that matches no buffer\<close>

lemma s10_unlock_bufs_loop_unknown:
  "\<forall>j. i \<le> j \<and> j < NUM_SVC_BUFS \<longrightarrow> buf (svc_bufs priv ! j) \<noteq> kaddr \<Longrightarrow>
   s10_unlock_bufs_loop i priv kaddr = priv\<lparr>trace := trace priv @ [Warn kaddr]\<rparr>"
proof (induction i priv kaddr rule: s10_unlock_bufs_loop.induct)
  case (1 i priv kaddr)
  show ?case
  proof (cases "i < NUM_SVC_BUFS")
    case True
    with "1.prems" have ne: "buf (svc_bufs priv ! i) \<noteq> kaddr" by simp
    from "1.prems"
    have "\<forall>j. i + 1 \<le> j \<and> j < NUM_SVC_BUFS \<longrightarrow> buf (svc_bufs priv ! j) \<noteq> kaddr"
      by simp
    with "1.IH" True ne
    have "s10_unlock_bufs_loop (i + 1) priv kaddr = priv\<lparr>trace := trace priv @ [Warn kaddr]\<rparr>"
      by simp
    with True ne show ?thesis
      by (subst s10_unlock_bufs_loop.simps) (simp add: Let_def)
  next
    case False
    then show ?thesis by (subst s10_unlock_bufs_loop.simps) simp
  qed
qed

text \<open>
  C5. When the address \<open>kaddr\<close> is the \<open>buf\<close> of no buffer of the pool,
  \<open>s10_unlock_bufs\<close> changes nothing in the driver's state: every lock word, buffer
  pointer and DMA address is as before, no memory is freed and nothing is unmapped. The
  only effect is the warning, which is given for every such address but \<open>NULL\<close>, and the
  function returns normally.
\<close>

theorem s10_unlock_bufs_unknown_handle:
  assumes "\<forall>i<NUM_SVC_BUFS. buf (svc_bufs priv ! i) \<noteq> kaddr"
  shows "s10_unlock_bufs priv kaddr =
         priv\<lparr>trace := trace priv @ (if kaddr = 0 then [] else [Warn kaddr])\<rparr>"
  using assms by (simp add: s10_unlock_bufs_def s10_unlock_bufs_loop_unknown)

theorem s10_unlock_bufs_unknown_handle_witness:
  "s10_unlock_bufs (ex_priv 1 0 1 0 0) 0x5000 = (ex_priv 1 0 1 0 0)\<lparr>trace := [Warn 0x5000]\<rparr>"
proof -
  have h: "\<forall>i<NUM_SVC_BUFS. buf (svc_bufs (ex_priv 1 0 1 0 0) ! i) \<noteq> 0x5000"
    by (simp add: all_less_NUM_SVC_BUFS ex_priv_def ex_buf_def)
  show ?thesis
    using s10_unlock_bufs_unknown_handle [OF h] by (simp add: ex_priv_def)
qed

subsection \<open>C10 and C3: the locks around \<open>s10_send_buf\<close>\<close>

lemma map_update_same:
  "j < length xs \<Longrightarrow> f y = f (xs ! j) \<Longrightarrow> map f (xs[j := y]) = map f xs"
  by (simp add: list_eq_iff_nth_eq nth_list_update)

lemma all_locked_free_bufs:
  assumes "pool_ok priv"
  shows "(\<forall>m<NUM_SVC_BUFS. bit (lock (svc_bufs priv ! m)) SVC_BUF_LOCK) \<longleftrightarrow> free_bufs priv = 0"
proof -
  have "free_bufs priv = 0 \<longleftrightarrow> (\<forall>b\<in>set (svc_bufs priv). bit (lock b) SVC_BUF_LOCK)"
    by (auto simp add: free_bufs_def filter_empty_conv)
  also have "\<dots> \<longleftrightarrow> (\<forall>m<length (svc_bufs priv). bit (lock (svc_bufs priv ! m)) SVC_BUF_LOCK)"
    by (simp add: all_set_conv_all_nth)
  finally show ?thesis using assms by (simp add: pool_ok_def)
qed

lemma s10_send_buf_failure:
  assumes ok: "pool_ok priv"
    and res: "s10_send_buf dma send_ret priv ubuf count = (r, priv')"
    and neg: "r < 0"
  shows "map lock (svc_bufs priv') = map lock (svc_bufs priv) \<and> pool_ok priv'"
proof (cases rule: first_free_cases
    [of NUM_SVC_BUFS "\<lambda>m. bit (lock (svc_bufs priv ! m)) SVC_BUF_LOCK"])
  case none
  then have "s10_send_buf dma send_ret priv ubuf count = (- ENOBUFS, priv)"
    by (rule s10_send_buf_exhausted)
  with res ok show ?thesis by simp
next
  case (first j)
  have len: "j < length (svc_bufs priv)" using first(1) ok by (simp add: pool_ok_def)
  note eq = s10_send_buf_first_free [OF first(1) first(2) first(3) ok, of dma send_ret ubuf count]
  show ?thesis
  proof (cases "send_ret < 0")
    case True
    with eq res len ok show ?thesis
      by (auto simp add: map_update_same pool_ok_def)
  next
    case False
    with eq res have "r = ulong_to_int (xfer_size count)" by simp
    with neg ulong_to_int_xfer_size_nonneg [of count] show ?thesis by simp
  qed
qed

lemma s10_send_buf_success:
  assumes ok: "pool_ok priv"
    and res: "s10_send_buf dma send_ret priv ubuf count = (r, priv')"
    and nonneg: "0 \<le> r"
  shows "pool_ok priv' \<and> Suc (free_bufs priv') = free_bufs priv"
proof (cases rule: first_free_cases
    [of NUM_SVC_BUFS "\<lambda>m. bit (lock (svc_bufs priv ! m)) SVC_BUF_LOCK"])
  case none
  then have "s10_send_buf dma send_ret priv ubuf count = (- ENOBUFS, priv)"
    by (rule s10_send_buf_exhausted)
  with res nonneg show ?thesis by (simp add: ENOBUFS_def)
next
  case (first j)
  have len: "j < length (svc_bufs priv)" using first(1) ok by (simp add: pool_ok_def)
  note eq = s10_send_buf_first_free [OF first(1) first(2) first(3) ok, of dma send_ret ubuf count]
  from eq res nonneg have pos: "\<not> send_ret < 0" by (auto split: if_splits)
  let ?b = "(svc_bufs priv ! j)\<lparr>lock := set_bit SVC_BUF_LOCK (lock (svc_bufs priv ! j)),
              dma_addr := if is_smmu_enabled priv then dma else dma_addr (svc_bufs priv ! j)\<rparr>"
  from eq res pos have bufs: "svc_bufs priv' = (svc_bufs priv)[j := ?b]" by auto
  have "\<not> (\<lambda>b. \<not> bit (lock b) SVC_BUF_LOCK) ?b" by (simp add: bit_simps SVC_BUF_LOCK_def)
  with len first(2)
  have "Suc (length (filter (\<lambda>b. \<not> bit (lock b) SVC_BUF_LOCK) ((svc_bufs priv)[j := ?b]))) =
        length (filter (\<lambda>b. \<not> bit (lock b) SVC_BUF_LOCK) (svc_bufs priv))"
    by (intro filter_update_drop) simp_all
  with bufs ok show ?thesis by (simp add: free_bufs_def pool_ok_def)
qed

lemma s10_send_buf_calls_free_bufs:
  "pool_ok priv \<Longrightarrow> s10_send_buf_calls cs priv = (rs, priv1) \<Longrightarrow> list_all (\<lambda>r. 0 \<le> r) rs \<Longrightarrow>
   pool_ok priv1 \<and> free_bufs priv1 + length cs = free_bufs priv"
proof (induction cs arbitrary: priv rs)
  case Nil
  then show ?case by simp
next
  case (Cons c cs)
  obtain dma send_ret ubuf count where c: "c = (dma, send_ret, ubuf, count)"
    by (cases c) auto
  obtain r p1 where one: "s10_send_buf dma send_ret priv ubuf count = (r, p1)"
    by (cases "s10_send_buf dma send_ret priv ubuf count") auto
  obtain rs1 p2 where rest: "s10_send_buf_calls cs p1 = (rs1, p2)"
    by (cases "s10_send_buf_calls cs p1") auto
  from Cons.prems(2) c one rest have rs: "rs = r # rs1" and p: "priv1 = p2" by auto
  from Cons.prems(3) rs have r: "0 \<le> r" and rs1: "list_all (\<lambda>r. 0 \<le> r) rs1" by auto
  from s10_send_buf_success [OF Cons.prems(1) one r]
  have ok1: "pool_ok p1" and f1: "Suc (free_bufs p1) = free_bufs priv" by auto
  from rest p have rest1: "s10_send_buf_calls cs p1 = (rs1, priv1)" by simp
  from Cons.IH [OF ok1 rest1 rs1]
  have "pool_ok priv1" and "free_bufs priv1 + length cs = free_bufs p1"
    by auto
  with f1 show ?case by simp
qed

text \<open>
  C10. When \<open>stratix10_svc_send\<close> fails (\<open>send_ret < 0\<close>), \<open>s10_send_buf\<close> returns a
  negative value with every lock word as it was before the call, so that the number of
  free buffers (by the lock bit, and as \<open>s10_get_unlocked_buffer_count\<close> counts them) is
  the same after the call as before it. Where a buffer was free, it has been filled and
  handed to the service layer, and the value returned is the error of the send.
\<close>

theorem s10_send_buf_send_error_releases:
  assumes ok: "pool_ok priv" and fail: "send_ret < 0"
    and res: "s10_send_buf dma send_ret priv ubuf count = (r, priv')"
  shows "r < 0 \<and>
         map lock (svc_bufs priv') = map lock (svc_bufs priv) \<and>
         free_bufs priv' = free_bufs priv \<and>
         s10_get_unlocked_buffer_count priv' = s10_get_unlocked_buffer_count priv \<and>
         (0 < free_bufs priv \<longrightarrow>
            r = send_ret \<and>
            (\<exists>j<NUM_SVC_BUFS. trace priv' = trace priv @ send_buf_events priv j ubuf count send_ret))"
proof -
  have r: "r < 0 \<and> (0 < free_bufs priv \<longrightarrow>
            r = send_ret \<and>
            (\<exists>j<NUM_SVC_BUFS. trace priv' = trace priv @ send_buf_events priv j ubuf count send_ret))"
  proof (cases rule: first_free_cases
      [of NUM_SVC_BUFS "\<lambda>m. bit (lock (svc_bufs priv ! m)) SVC_BUF_LOCK"])
    case none
    then have "s10_send_buf dma send_ret priv ubuf count = (- ENOBUFS, priv)"
      by (rule s10_send_buf_exhausted)
    moreover from none ok have "free_bufs priv = 0" by (simp add: all_locked_free_bufs)
    ultimately show ?thesis using res by (simp add: ENOBUFS_def)
  next
    case (first j)
    from s10_send_buf_first_free [OF first(1) first(2) first(3) ok, of dma send_ret ubuf count]
      res fail first(1)
    show ?thesis by auto
  qed
  then have neg: "r < 0" by simp
  from s10_send_buf_failure [OF ok res neg]
  have locks: "map lock (svc_bufs priv') = map lock (svc_bufs priv)" and ok': "pool_ok priv'"
    by auto
  from locks have "free_bufs priv' = free_bufs priv" by (simp add: free_bufs_locks)
  moreover from locks ok ok'
  have "s10_get_unlocked_buffer_count priv' = s10_get_unlocked_buffer_count priv"
    by (simp add: s10_get_unlocked_buffer_count_locks)
  ultimately show ?thesis using r locks by simp
qed

theorem s10_send_buf_send_error_releases_witness:
  "fst (s10_send_buf 0 (- 12) (ex_priv 1 0 0 0 0) 0x9000 100) = - 12 \<and>
   map lock (svc_bufs (snd (s10_send_buf 0 (- 12) (ex_priv 1 0 0 0 0) 0x9000 100))) = [1, 0, 0, 0] \<and>
   free_bufs (snd (s10_send_buf 0 (- 12) (ex_priv 1 0 0 0 0) 0x9000 100)) = 3"
proof -
  have ok: "pool_ok (ex_priv 1 0 0 0 0)"
    by (simp add: pool_ok_def ex_priv_def NUM_SVC_BUFS_def)
  have fail: "(- 12 :: int) < 0" by simp
  have res: "s10_send_buf 0 (- 12) (ex_priv 1 0 0 0 0) 0x9000 100 =
             (fst (s10_send_buf 0 (- 12) (ex_priv 1 0 0 0 0) 0x9000 100),
              snd (s10_send_buf 0 (- 12) (ex_priv 1 0 0 0 0) 0x9000 100))"
    by simp
  have free: "free_bufs (ex_priv 1 0 0 0 0) = 3"
    by (simp add: free_bufs_def ex_priv_def ex_buf_def SVC_BUF_LOCK_def)
  have locks: "map lock (svc_bufs (ex_priv 1 0 0 0 0)) = [1, 0, 0, 0]"
    by (simp add: ex_priv_def ex_buf_def)
  from s10_send_buf_send_error_releases [OF ok fail res] free locks
  show ?thesis by simp
qed

text \<open>
  C3. From a pool in which every buffer is free, \<open>NUM_SVC_BUFS\<close> calls of \<open>s10_send_buf\<close>
  that all succeed, with no notification in between, leave a state in which a further
  call returns \<open>-ENOBUFS\<close> and changes nothing: no lock, no copy and no request.
\<close>

theorem s10_send_buf_pool_exhausted:
  assumes ok: "pool_ok priv"
    and free: "list_all (\<lambda>b. \<not> bit (lock b) SVC_BUF_LOCK) (svc_bufs priv)"
    and calls: "s10_send_buf_calls cs priv = (rs, priv1)"
    and n: "length cs = NUM_SVC_BUFS"
    and succ: "list_all (\<lambda>r. 0 \<le> r) rs"
  shows "s10_send_buf dma send_ret priv1 ubuf count = (- ENOBUFS, priv1)"
proof -
  from free have "filter (\<lambda>b. \<not> bit (lock b) SVC_BUF_LOCK) (svc_bufs priv) = svc_bufs priv"
    by (simp add: list_all_iff)
  with ok have all: "free_bufs priv = NUM_SVC_BUFS" by (simp add: free_bufs_def pool_ok_def)
  from s10_send_buf_calls_free_bufs [OF ok calls succ] n all
  have ok1: "pool_ok priv1" and "free_bufs priv1 = 0" by auto
  then have "\<forall>m<NUM_SVC_BUFS. bit (lock (svc_bufs priv1 ! m)) SVC_BUF_LOCK"
    by (simp add: all_locked_free_bufs)
  then show ?thesis by (rule s10_send_buf_exhausted)
qed

theorem s10_send_buf_pool_exhausted_witness:
  "s10_send_buf 0 0 (snd (s10_send_buf_calls ex_calls (ex_priv 0 0 0 0 0))) 0x209000 100 =
   (- ENOBUFS, snd (s10_send_buf_calls ex_calls (ex_priv 0 0 0 0 0)))"
proof -
  have ok: "pool_ok (ex_priv 0 0 0 0 0)"
    by (simp add: pool_ok_def ex_priv_def NUM_SVC_BUFS_def)
  have free: "list_all (\<lambda>b. \<not> bit (lock b) SVC_BUF_LOCK) (svc_bufs (ex_priv 0 0 0 0 0))"
    by (simp add: ex_priv_def ex_buf_def)
  have calls: "s10_send_buf_calls ex_calls (ex_priv 0 0 0 0 0) =
               (fst (s10_send_buf_calls ex_calls (ex_priv 0 0 0 0 0)),
                snd (s10_send_buf_calls ex_calls (ex_priv 0 0 0 0 0)))"
    by simp
  have n: "length ex_calls = NUM_SVC_BUFS"
    by (simp add: ex_calls_def NUM_SVC_BUFS_def)
  have "fst (s10_send_buf_calls ex_calls (ex_priv 0 0 0 0 0)) = [0x80000, 0x80000, 0x80000, 7]"
    by code_simp
  then have succ: "list_all (\<lambda>r. 0 \<le> r) (fst (s10_send_buf_calls ex_calls (ex_priv 0 0 0 0 0)))"
    by simp
  show ?thesis
    by (rule s10_send_buf_pool_exhausted [OF ok free calls n succ])
qed

subsection \<open>C4: the size of a submission\<close>

text \<open>
  C4. With input remaining (\<open>0 < count\<close>), a call of \<open>s10_send_buf\<close> that succeeds
  copies \<open>min count SVC_BUF_SIZE\<close> bytes into a buffer, submits that buffer with that
  length, and returns that length, which is positive. So a write of \<open>n\<close> times
  \<open>SVC_BUF_SIZE\<close> bytes that succeeds has had exactly \<open>n\<close> submissions accepted, each of
  \<open>SVC_BUF_SIZE\<close> bytes, and a successful write of \<open>SVC_BUF_SIZE + 1\<close> bytes exactly two,
  of \<open>SVC_BUF_SIZE\<close> bytes and of 1 byte.
\<close>

theorem s10_send_buf_transfer_size:
  "(0 < count \<and> s10_send_buf dma send_ret priv ubuf count = (r, priv1) \<and> 0 \<le> r \<longrightarrow>
      r = uint (min count SVC_BUF_SIZE) \<and> 0 < r \<and>
      (\<exists>b xs. trace priv1 = trace priv @ [Memcpy b ubuf (min count SVC_BUF_SIZE)] @ xs @
                 [SvcSend COMMAND_RECONFIG_DATA_SUBMIT (Buffer b)
                    (ucast (min count SVC_BUF_SIZE)) send_ret]) \<and>
      submitted (trace priv1) = submitted (trace priv) @ [unat (min count SVC_BUF_SIZE)]) \<and>
   (unat count = n * unat SVC_BUF_SIZE \<and>
    s10_ops_write k es priv ubuf count = Some (0, priv2) \<longrightarrow>
      submitted (trace priv2) = submitted (trace priv) @ replicate n (unat SVC_BUF_SIZE)) \<and>
   (count = SVC_BUF_SIZE + 1 \<and> s10_ops_write k es priv ubuf count = Some (0, priv3) \<longrightarrow>
      submitted (trace priv3) = submitted (trace priv) @ [unat SVC_BUF_SIZE, 1])"
proof (intro conjI impI)
  assume a: "0 < count \<and> s10_send_buf dma send_ret priv ubuf count = (r, priv1) \<and> 0 \<le> r"
  then have res: "s10_send_buf dma send_ret priv ubuf count = (r, priv1)" and r: "0 \<le> r"
    and c: "0 < count" by auto
  from s10_send_buf_submitted(2) [OF res r]
  show eq: "r = uint (min count SVC_BUF_SIZE)" by (simp add: xfer_size_min)
  from xfer_size_pos [OF c] have "0 < uint (xfer_size count)"
    by (simp add: word_less_def)
  with eq show "0 < r" by (simp add: xfer_size_min)
  from s10_send_buf_submitted(1) [OF res] r
  show "submitted (trace priv1) = submitted (trace priv) @ [unat (min count SVC_BUF_SIZE)]"
    by (simp add: xfer_size_min)
  from s10_send_buf_trace [OF res] r
  show "\<exists>b xs. trace priv1 = trace priv @ [Memcpy b ubuf (min count SVC_BUF_SIZE)] @ xs @
                 [SvcSend COMMAND_RECONFIG_DATA_SUBMIT (Buffer b)
                    (ucast (min count SVC_BUF_SIZE)) send_ret]"
    unfolding xfer_size_min by (auto simp add: ENOBUFS_def)
next
  assume "unat count = n * unat SVC_BUF_SIZE \<and>
    s10_ops_write k es priv ubuf count = Some (0, priv2)"
  then have n: "unat count = n * unat SVC_BUF_SIZE"
    and run: "s10_ops_write_loop k es priv ubuf count = Some (0, priv2)"
    by (auto simp add: s10_ops_write_def)
  from s10_ops_write_loop_submitted [OF run] n
  show "submitted (trace priv2) = submitted (trace priv) @ replicate n (unat SVC_BUF_SIZE)"
    by (simp add: chunk_lens_full)
next
  assume "count = SVC_BUF_SIZE + 1 \<and> s10_ops_write k es priv ubuf count = Some (0, priv3)"
  then have c: "count = SVC_BUF_SIZE + 1"
    and run: "s10_ops_write_loop k es priv ubuf count = Some (0, priv3)"
    by (auto simp add: s10_ops_write_def)
  from c have u: "unat count = unat SVC_BUF_SIZE + 1"
    by (simp add: SVC_BUF_SIZE_def)
  show "submitted (trace priv3) = submitted (trace priv) @ [unat SVC_BUF_SIZE, 1]"
    using s10_ops_write_loop_submitted [OF run] unfolding u chunk_lens_one_more .
qed

theorem s10_send_buf_transfer_size_witness:
  "fst (s10_send_buf 0 0 (ex_priv 0 0 0 0 0) 0x9000 100) = 100 \<and>
   submitted (trace (snd (the (s10_ops_write linux_hdr ex_script (ex_priv 0 0 0 0 0) 0x9000
      0x100000)))) = [0x80000, 0x80000] \<and>
   submitted (trace (snd (the (s10_ops_write linux_hdr ex_script (ex_priv 0 0 0 0 0) 0x9000
      0x80001)))) = [0x80000, 1]"
proof -
  have t: "trace (ex_priv 0 0 0 0 0) = []" by (simp add: ex_priv_def)
  have c1: "(0 :: ulong) < 100" by simp
  have r1: "s10_send_buf 0 0 (ex_priv 0 0 0 0 0) 0x9000 100 =
            (fst (s10_send_buf 0 0 (ex_priv 0 0 0 0 0) 0x9000 100),
             snd (s10_send_buf 0 0 (ex_priv 0 0 0 0 0) 0x9000 100))" by simp
  have p1: "0 \<le> fst (s10_send_buf 0 0 (ex_priv 0 0 0 0 0) 0x9000 100)" by code_simp
  have n2: "unat (0x100000 :: ulong) = 2 * unat SVC_BUF_SIZE" by (simp add: SVC_BUF_SIZE_def)
  have "map_option fst (s10_ops_write linux_hdr ex_script (ex_priv 0 0 0 0 0) 0x9000 0x100000) =
        Some 0" by code_simp
  then have r2: "s10_ops_write linux_hdr ex_script (ex_priv 0 0 0 0 0) 0x9000 0x100000 =
    Some (0, snd (the (s10_ops_write linux_hdr ex_script (ex_priv 0 0 0 0 0) 0x9000 0x100000)))"
    by (cases "s10_ops_write linux_hdr ex_script (ex_priv 0 0 0 0 0) 0x9000 0x100000") auto
  have c3: "(0x80001 :: ulong) = SVC_BUF_SIZE + 1" by (simp add: SVC_BUF_SIZE_def)
  have "map_option fst (s10_ops_write linux_hdr ex_script (ex_priv 0 0 0 0 0) 0x9000 0x80001) =
        Some 0" by code_simp
  then have r3: "s10_ops_write linux_hdr ex_script (ex_priv 0 0 0 0 0) 0x9000 0x80001 =
    Some (0, snd (the (s10_ops_write linux_hdr ex_script (ex_priv 0 0 0 0 0) 0x9000 0x80001)))"
    by (cases "s10_ops_write linux_hdr ex_script (ex_priv 0 0 0 0 0) 0x9000 0x80001") auto
  note T1 = s10_send_buf_transfer_size
    [where count = 100 and dma = 0 and send_ret = 0 and priv = "ex_priv 0 0 0 0 0"
      and ubuf = "0x9000" and r = "fst (s10_send_buf 0 0 (ex_priv 0 0 0 0 0) 0x9000 100)"
      and ?priv1.0 = "snd (s10_send_buf 0 0 (ex_priv 0 0 0 0 0) 0x9000 100)",
      THEN conjunct1, THEN mp, OF conjI, OF c1 conjI, OF r1 p1]
  then have a: "fst (s10_send_buf 0 0 (ex_priv 0 0 0 0 0) 0x9000 100) = 100"
    by (simp add: SVC_BUF_SIZE_def)
  have two: "replicate 2 x = [x, x]" for x :: nat
    by (simp add: numeral_2_eq_2)
  have rep: "replicate 2 (unat SVC_BUF_SIZE) = [0x80000, 0x80000]"
    unfolding two by (simp add: SVC_BUF_SIZE_def)
  note T2 = s10_send_buf_transfer_size
    [where count = "0x100000" and priv = "ex_priv 0 0 0 0 0" and ubuf = "0x9000" and n = 2
      and k = linux_hdr and es = ex_script
      and ?priv2.0 =
        "snd (the (s10_ops_write linux_hdr ex_script (ex_priv 0 0 0 0 0) 0x9000 0x100000))",
      THEN conjunct2, THEN conjunct1, THEN mp, OF conjI, OF n2 r2]
  then have b: "submitted (trace (snd (the (s10_ops_write linux_hdr ex_script (ex_priv 0 0 0 0 0) 0x9000
      0x100000)))) = [0x80000, 0x80000]"
    unfolding rep t by simp
  note T3 = s10_send_buf_transfer_size
    [where count = "0x80001" and priv = "ex_priv 0 0 0 0 0" and ubuf = "0x9000"
      and k = linux_hdr and es = ex_script
      and ?priv3.0 =
        "snd (the (s10_ops_write linux_hdr ex_script (ex_priv 0 0 0 0 0) 0x9000 0x80001))",
      THEN conjunct2, THEN conjunct2, THEN mp, OF conjI, OF c3 r3]
  then have c: "submitted (trace (snd (the (s10_ops_write linux_hdr ex_script (ex_priv 0 0 0 0 0) 0x9000
      0x80001)))) = [0x80000, 1]"
    unfolding t by (simp add: SVC_BUF_SIZE_def)
  from a b c show ?thesis by simp
qed

subsection \<open>C9: no free buffer in \<open>s10_ops_write\<close>\<close>

text \<open>
  C9. When a pass of the loop of \<open>s10_ops_write\<close> has input left and finds every buffer
  locked, \<open>s10_send_buf\<close> returns \<open>-ENOBUFS\<close> and the pass ends with \<open>continue\<close>: the
  pointer into the input and the remaining count are as before, nothing has been copied
  or sent, and the pass returns nothing to the caller. What the write returns is what the
  passes after it return.
\<close>

theorem s10_ops_write_exhausted_retries:
  assumes c: "0 < count"
    and p: "priv1 = reinit_completion (deliver k (e_async e) priv)"
    and locked: "\<forall>m<NUM_SVC_BUFS. bit (lock (svc_bufs priv1 ! m)) SVC_BUF_LOCK"
  shows "s10_send_buf (e_dma e) (e_send e) priv1 ubuf count = (- ENOBUFS, priv1) \<and>
         s10_ops_write_pass k e priv ubuf count = Again (priv1, ubuf, count) \<and>
         s10_ops_write k (e # es) priv ubuf count = s10_ops_write k es priv1 ubuf count"
proof -
  from locked have sb: "s10_send_buf (e_dma e) (e_send e) priv1 ubuf count = (- ENOBUFS, priv1)"
    by (rule s10_send_buf_exhausted)
  with c p have "s10_ops_write_pass k e priv ubuf count = Again (priv1, ubuf, count)"
    by (simp add: s10_ops_write_pass_def Let_def ENOBUFS_def)
  with sb show ?thesis by (simp add: s10_ops_write_def)
qed

theorem s10_ops_write_exhausted_retries_witness:
  "s10_ops_write_pass linux_hdr (ex_env [] 0 [] 0) (ex_priv 1 1 1 1 0) 0x9000 5 =
     Again (ex_priv 1 1 1 1 0, 0x9000, 5) \<and>
   s10_ops_write linux_hdr [ex_env [] 0 [] 0] (ex_priv 1 1 1 1 0) 0x9000 5 = None"
proof -
  have c: "(0 :: ulong) < 5" by simp
  have p: "ex_priv 1 1 1 1 0 =
           reinit_completion (deliver linux_hdr (e_async (ex_env [] 0 [] 0)) (ex_priv 1 1 1 1 0))"
    by (simp add: ex_env_def ex_priv_def reinit_completion_def)
  have locked: "\<forall>m<NUM_SVC_BUFS. bit (lock (svc_bufs (ex_priv 1 1 1 1 0) ! m)) SVC_BUF_LOCK"
    by (simp add: all_less_NUM_SVC_BUFS ex_priv_def ex_buf_def SVC_BUF_LOCK_def)
  from s10_ops_write_exhausted_retries [OF c p locked, where ubuf = "0x9000" and es = "[]"]
  show ?thesis by (simp add: s10_ops_write_def)
qed

subsection \<open>C6: the drain phase of \<open>s10_ops_write\<close>\<close>








subsection \<open>The passes of \<open>s10_ops_write_complete\<close>\<close>

lemma wait_result_small:
  assumes w: "wait_for_completion_timeout elapsed priv timeout = (w, p)"
    and t: "0 < timeout" "timeout < 0x80000000"
  shows "w \<le> timeout" and "w < 0x80000000"
proof -
  from w have "w = 0 \<or> (elapsed < timeout \<and> w = timeout - elapsed) \<or> w = 1"
    by (auto simp add: wait_for_completion_timeout_def Let_def split: if_splits)
  then show le: "w \<le> timeout"
  proof (elim disjE conjE)
    assume "w = 0"
    then show ?thesis by simp
  next
    assume "elapsed < timeout" "w = timeout - elapsed"
    then show ?thesis by (simp add: word_sub_le less_imp_le)
  next
    assume "w = 1"
    with t(1) show ?thesis by (simp add: word_le_nat_alt word_less_nat_alt)
  qed
  from le t(2) show "w < 0x80000000" by (rule le_less_trans)
qed

text \<open>A pass of the polling loop, written out branch by branch.\<close>

lemma s10_ops_write_complete_pass_cases:
  assumes p1: "priv1 = reinit_completion (deliver k (e_async e) priv)"
    and p2: "priv2 = priv1\<lparr>receive_cb := Some S10_RECEIVE_CALLBACK,
                          trace := trace priv1 @
                            [SvcSend COMMAND_RECONFIG_STATUS NoPayload 0 (e_send e)]\<rparr>"
    and w: "wait_for_completion_timeout (e_elapsed e) (deliver k (e_msgs e) priv2) timeout =
              (w, priv3)"
    and t: "0 < timeout" "timeout < 0x80000000"
  shows "s10_ops_write_complete_pass k e priv timeout =
    (if e_send e < 0 then Return (e_send e) priv2
     else if w = 0 then Return (- ETIMEDOUT) priv3
     else if bit (status priv3) (SVC_STATUS_COMPLETED k)
     then Return 0 (priv3\<lparr>status := unset_bit (SVC_STATUS_COMPLETED k) (status priv3)\<rparr>)
     else if bit (status priv3) (SVC_STATUS_ERROR k)
     then Return (- EFAULT) (priv3\<lparr>status := unset_bit (SVC_STATUS_ERROR k) (status priv3)\<rparr>)
     else Again (priv3, w))"
proof -
  have sm: "s10_svc_send_msg (e_send e) priv1 COMMAND_RECONFIG_STATUS NoPayload 0
              S10_RECEIVE_CALLBACK = (e_send e, priv2)"
    by (simp add: s10_svc_send_msg_def Let_def p2)
  from wait_result_small(2) [OF w t] have small: "w < 0x80000000" .
  then have i: "ulong_to_int w = uint w" by (rule ulong_to_int_small)
  have z: "uint w = 0 \<longleftrightarrow> w = 0" by (simp add: uint_0_iff)
  show ?thesis
    by (simp add: s10_ops_write_complete_pass_def s10_ops_write_complete_wait_def Let_def
        p1 [symmetric] sm w i z int_to_ulong_uint test_and_clear_bit_def unset_bit_already)
qed

text \<open>The same for the loop: what one more pass makes of it.\<close>

lemma s10_ops_write_complete_loop_step:
  assumes p1: "priv1 = reinit_completion (deliver k (e_async e) priv)"
    and p2: "priv2 = priv1\<lparr>receive_cb := Some S10_RECEIVE_CALLBACK,
                          trace := trace priv1 @
                            [SvcSend COMMAND_RECONFIG_STATUS NoPayload 0 (e_send e)]\<rparr>"
    and w: "wait_for_completion_timeout (e_elapsed e) (deliver k (e_msgs e) priv2) timeout =
              (w, priv3)"
    and t: "0 < timeout" "timeout < 0x80000000"
  shows "s10_ops_write_complete_loop k (e # es) priv timeout =
    (if e_send e < 0 then Some (e_send e, priv2)
     else if w = 0 then Some (- ETIMEDOUT, priv3)
     else if bit (status priv3) (SVC_STATUS_COMPLETED k)
     then Some (0, priv3\<lparr>status := unset_bit (SVC_STATUS_COMPLETED k) (status priv3)\<rparr>)
     else if bit (status priv3) (SVC_STATUS_ERROR k)
     then Some (- EFAULT, priv3\<lparr>status := unset_bit (SVC_STATUS_ERROR k) (status priv3)\<rparr>)
     else s10_ops_write_complete_loop k es priv3 w)"
  unfolding s10_ops_write_complete_loop.simps s10_ops_write_complete_pass_cases [OF p1 p2 w t]
  by simp

text \<open>
  What a pass adds to the trace: the request, what the notifications cause, and (unless
  the send failed) the wait with the timeout that the pass was given. A pass that ends the
  loop does so with the error of the send and no wait, with \<open>-ETIMEDOUT\<close> after a wait
  that returned 0, or after a wait that was woken with 0 and \<open>COMPLETED\<close> cleared or with
  \<open>-EFAULT\<close>.
\<close>

lemma s10_ops_write_complete_pass_trace:
  assumes t: "0 < timeout" "timeout < 0x80000000"
  shows "s10_ops_write_complete_pass k e priv timeout = Return r p \<Longrightarrow>
     \<exists>xs. trace p = trace priv @ xs \<and> done_calls xs = 0 \<and>
          ((waits xs = [] \<and> r < 0 \<and> r = e_send e) \<or>
           (\<exists>w\<le>timeout. waits xs = [(timeout, w)] \<and>
              (w = 0 \<longrightarrow> r = - ETIMEDOUT) \<and>
              (r = 0 \<longrightarrow> w \<noteq> 0 \<and> \<not> bit (status p) (SVC_STATUS_COMPLETED k)) \<and>
              (r = 0 \<or> r = - EFAULT \<or> r = - ETIMEDOUT)))"
    and "s10_ops_write_complete_pass k e priv timeout = Again (p, t1) \<Longrightarrow>
     0 < t1 \<and> t1 \<le> timeout \<and>
     (\<exists>xs. trace p = trace priv @ xs \<and> done_calls xs = 0 \<and> waits xs = [(timeout, t1)])"
proof -
  define priv1 where "priv1 = reinit_completion (deliver k (e_async e) priv)"
  define priv2 where "priv2 = priv1\<lparr>receive_cb := Some S10_RECEIVE_CALLBACK,
                          trace := trace priv1 @
                            [SvcSend COMMAND_RECONFIG_STATUS NoPayload 0 (e_send e)]\<rparr>"
  obtain w priv3 where w: "wait_for_completion_timeout (e_elapsed e)
      (deliver k (e_msgs e) priv2) timeout = (w, priv3)"
    by (cases "wait_for_completion_timeout (e_elapsed e)
      (deliver k (e_msgs e) priv2) timeout") auto
  note eq = s10_ops_write_complete_pass_cases [OF priv1_def priv2_def w t]
  obtain as where as: "trace (deliver k (e_async e) priv) = trace priv @ as"
      "list_all cb_event as"
    using deliver_frame [of k "e_async e" priv] by blast
  obtain ms where ms: "trace (deliver k (e_msgs e) priv2) = trace priv2 @ ms"
      "list_all cb_event ms"
    using deliver_frame [of k "e_msgs e" priv2] by blast
  let ?x2 = "as @ [SvcSend COMMAND_RECONFIG_STATUS NoPayload 0 (e_send e)]"
  let ?x3 = "?x2 @ ms @ [WaitForCompletion timeout w]"
  have t2: "trace priv2 = trace priv @ ?x2"
    using as(1) by (simp add: priv2_def priv1_def)
  have t3: "trace priv3 = trace priv @ ?x3"
    using wait_for_completion_timeout_frame(1) [OF w] ms(1) t2 by simp
  have d2: "done_calls ?x2 = 0" and w2: "waits ?x2 = []"
    using as(2) by (simp_all add: cb_events_done_calls cb_events_waits)
  have d3: "done_calls ?x3 = 0" and w3: "waits ?x3 = [(timeout, w)]"
    using as(2) ms(2) by (simp_all add: cb_events_done_calls cb_events_waits)
  from wait_result_small(1) [OF w t] have le: "w \<le> timeout" .
  have y3: "\<exists>xs. trace priv3 = trace priv @ xs \<and> done_calls xs = 0 \<and>
          waits xs = [(timeout, w)]"
    using t3 d3 w3 by blast
  show "s10_ops_write_complete_pass k e priv timeout = Return r p \<Longrightarrow>
     \<exists>xs. trace p = trace priv @ xs \<and> done_calls xs = 0 \<and>
          ((waits xs = [] \<and> r < 0 \<and> r = e_send e) \<or>
           (\<exists>w\<le>timeout. waits xs = [(timeout, w)] \<and>
              (w = 0 \<longrightarrow> r = - ETIMEDOUT) \<and>
              (r = 0 \<longrightarrow> w \<noteq> 0 \<and> \<not> bit (status p) (SVC_STATUS_COMPLETED k)) \<and>
              (r = 0 \<or> r = - EFAULT \<or> r = - ETIMEDOUT)))"
  proof -
    assume a: "s10_ops_write_complete_pass k e priv timeout = Return r p"
    consider (send) "e_send e < 0"
      | (timeout) "\<not> e_send e < 0" "w = 0"
      | (completed) "\<not> e_send e < 0" "w \<noteq> 0" "bit (status priv3) (SVC_STATUS_COMPLETED k)"
      | (error) "\<not> e_send e < 0" "w \<noteq> 0" "\<not> bit (status priv3) (SVC_STATUS_COMPLETED k)"
          "bit (status priv3) (SVC_STATUS_ERROR k)"
      | (again) "\<not> e_send e < 0" "w \<noteq> 0" "\<not> bit (status priv3) (SVC_STATUS_COMPLETED k)"
          "\<not> bit (status priv3) (SVC_STATUS_ERROR k)"
      by blast
    then show ?thesis
    proof cases
      case send
      with a eq have "r = e_send e" "p = priv2" by simp_all
      with send t2 d2 w2 show ?thesis by blast
    next
      case timeout
      with a eq have r: "r = - ETIMEDOUT" and p: "p = priv3" by simp_all
      have "w \<le> timeout \<and> waits ?x3 = [(timeout, w)] \<and>
              (w = 0 \<longrightarrow> r = - ETIMEDOUT) \<and>
              (r = 0 \<longrightarrow> w \<noteq> 0 \<and> \<not> bit (status p) (SVC_STATUS_COMPLETED k)) \<and>
              (r = 0 \<or> r = - EFAULT \<or> r = - ETIMEDOUT)"
        using le w3 r by (simp add: ETIMEDOUT_def)
      with t3 d3 p show ?thesis by blast
    next
      case completed
      with a eq have r: "r = 0"
        and p: "p = priv3\<lparr>status := unset_bit (SVC_STATUS_COMPLETED k) (status priv3)\<rparr>"
        by simp_all
      have "w \<le> timeout \<and> waits ?x3 = [(timeout, w)] \<and>
              (w = 0 \<longrightarrow> r = - ETIMEDOUT) \<and>
              (r = 0 \<longrightarrow> w \<noteq> 0 \<and> \<not> bit (status p) (SVC_STATUS_COMPLETED k)) \<and>
              (r = 0 \<or> r = - EFAULT \<or> r = - ETIMEDOUT)"
        using le w3 r p completed(2) by (simp add: bit_simps)
      moreover from t3 p have "trace p = trace priv @ ?x3" by simp
      ultimately show ?thesis using d3 by blast
    next
      case error
      with a eq have r: "r = - EFAULT"
        and p: "p = priv3\<lparr>status := unset_bit (SVC_STATUS_ERROR k) (status priv3)\<rparr>"
        by simp_all
      have "w \<le> timeout \<and> waits ?x3 = [(timeout, w)] \<and>
              (w = 0 \<longrightarrow> r = - ETIMEDOUT) \<and>
              (r = 0 \<longrightarrow> w \<noteq> 0 \<and> \<not> bit (status p) (SVC_STATUS_COMPLETED k)) \<and>
              (r = 0 \<or> r = - EFAULT \<or> r = - ETIMEDOUT)"
        using le w3 r error(2) by (simp add: EFAULT_def)
      moreover from t3 p have "trace p = trace priv @ ?x3" by simp
      ultimately show ?thesis using d3 by blast
    next
      case again
      with a eq show ?thesis by simp
    qed
  qed
  show "s10_ops_write_complete_pass k e priv timeout = Again (p, t1) \<Longrightarrow>
     0 < t1 \<and> t1 \<le> timeout \<and>
     (\<exists>xs. trace p = trace priv @ xs \<and> done_calls xs = 0 \<and> waits xs = [(timeout, t1)])"
    unfolding eq using y3 le by (auto simp add: word_greater_zero_iff split: if_splits)
qed

text \<open>
  A run of the loop that returns: the waits chain from the timeout the loop starts with,
  a last wait that returned 0 means \<open>-ETIMEDOUT\<close>, and 0 is returned only after a last wait
  that was woken, with \<open>COMPLETED\<close> cleared.
\<close>

lemma s10_ops_write_complete_loop_trace:
  "s10_ops_write_complete_loop k es priv timeout = Some (r, priv') \<Longrightarrow>
   0 < timeout \<Longrightarrow> timeout < 0x80000000 \<Longrightarrow>
   \<exists>xs. trace priv' = trace priv @ xs \<and> done_calls xs = 0 \<and>
     budget_chain timeout (waits xs) \<and>
     (waits xs \<noteq> [] \<and> snd (last (waits xs)) = 0 \<longrightarrow> r = - ETIMEDOUT) \<and>
     (r = 0 \<longrightarrow> waits xs \<noteq> [] \<and> snd (last (waits xs)) \<noteq> 0 \<and>
        \<not> bit (status priv') (SVC_STATUS_COMPLETED k)) \<and>
     (r = 0 \<or> r = - EFAULT \<or> r = - ETIMEDOUT \<or> (r < 0 \<and> r \<in> e_send ` set es))"
proof (induction es arbitrary: priv timeout)
  case Nil
  then show ?case by simp
next
  case (Cons e es)
  note t = Cons.prems(2,3)
  show ?case
  proof (cases "s10_ops_write_complete_pass k e priv timeout")
    case (Return r1 p)
    with Cons.prems(1) have rp: "r1 = r" "p = priv'" by simp_all
    from s10_ops_write_complete_pass_trace(1) [OF t Return] rp
    obtain xs where xs: "trace priv' = trace priv @ xs" "done_calls xs = 0"
      "(waits xs = [] \<and> r < 0 \<and> r = e_send e) \<or>
           (\<exists>w\<le>timeout. waits xs = [(timeout, w)] \<and>
              (w = 0 \<longrightarrow> r = - ETIMEDOUT) \<and>
              (r = 0 \<longrightarrow> w \<noteq> 0 \<and> \<not> bit (status priv') (SVC_STATUS_COMPLETED k)) \<and>
              (r = 0 \<or> r = - EFAULT \<or> r = - ETIMEDOUT))" by blast
    from xs(3) have "budget_chain timeout (waits xs) \<and>
     (waits xs \<noteq> [] \<and> snd (last (waits xs)) = 0 \<longrightarrow> r = - ETIMEDOUT) \<and>
     (r = 0 \<longrightarrow> waits xs \<noteq> [] \<and> snd (last (waits xs)) \<noteq> 0 \<and>
        \<not> bit (status priv') (SVC_STATUS_COMPLETED k)) \<and>
     (r = 0 \<or> r = - EFAULT \<or> r = - ETIMEDOUT \<or> (r < 0 \<and> r \<in> e_send ` set (e # es)))"
      by auto
    with xs(1,2) show ?thesis by blast
  next
    case (Again x)
    obtain p t1 where x: "x = (p, t1)" by (cases x) auto
    from s10_ops_write_complete_pass_trace(2) [OF t, of k e priv p t1] Again x
    obtain xs where t1: "0 < t1" "t1 \<le> timeout" and xs: "trace p = trace priv @ xs"
      "done_calls xs = 0" "waits xs = [(timeout, t1)]" by blast
    from t1(2) t(2) have s: "t1 < 0x80000000" by (rule le_less_trans)
    from t1(1) have nz: "t1 \<noteq> 0" by simp
    from Again x Cons.prems(1)
    have "s10_ops_write_complete_loop k es p t1 = Some (r, priv')" by simp
    from Cons.IH [OF this t1(1) s]
    obtain ys where ys: "trace priv' = trace p @ ys" "done_calls ys = 0"
      "budget_chain t1 (waits ys)"
      "waits ys \<noteq> [] \<and> snd (last (waits ys)) = 0 \<longrightarrow> r = - ETIMEDOUT"
      "r = 0 \<longrightarrow> waits ys \<noteq> [] \<and> snd (last (waits ys)) \<noteq> 0 \<and>
        \<not> bit (status priv') (SVC_STATUS_COMPLETED k)"
      "r = 0 \<or> r = - EFAULT \<or> r = - ETIMEDOUT \<or> (r < 0 \<and> r \<in> e_send ` set es)" by blast
    have l: "last (waits (xs @ ys)) = (if waits ys = [] then (timeout, t1) else last (waits ys))"
      using xs(3) by simp
    have "trace priv' = trace priv @ (xs @ ys)" "done_calls (xs @ ys) = 0"
      "budget_chain timeout (waits (xs @ ys))"
      using xs ys(1,2,3) t1(2) by simp_all
    moreover have "waits (xs @ ys) \<noteq> [] \<and> snd (last (waits (xs @ ys))) = 0 \<longrightarrow>
        r = - ETIMEDOUT"
      unfolding l using ys(4) nz by auto
    moreover have "r = 0 \<longrightarrow> waits (xs @ ys) \<noteq> [] \<and> snd (last (waits (xs @ ys))) \<noteq> 0 \<and>
        \<not> bit (status priv') (SVC_STATUS_COMPLETED k)"
      unfolding l using ys(5) xs(3) by auto
    moreover have "r = 0 \<or> r = - EFAULT \<or> r = - ETIMEDOUT \<or>
        (r < 0 \<and> r \<in> e_send ` set (e # es))"
      using ys(6) by auto
    ultimately show ?thesis by blast
  qed
qed

subsection \<open>C1 and C2: \<open>s10_ops_write_init\<close> and the release of the channel\<close>

lemma s10_ops_write_init_ctype_None:
  "s10_ops_write_init_ctype k priv flags = None \<longleftrightarrow>
     flags AND FPGA_MGR_PARTIAL_RECONFIG k = 0 \<and>
     flags AND FPGA_MGR_BITSTREAM_AUTHENTICATE k \<noteq> 0 \<and>
     fw_version priv = INVALID_FIRMWARE_VERSION"
  by (simp add: s10_ops_write_init_ctype_def)

text \<open>A call of \<open>s10_ops_write_init\<close> that gets as far as the request.\<close>

lemma s10_ops_write_init_request:
  assumes c: "s10_ops_write_init_ctype k priv flags = Some ctype"
    and res: "s10_ops_write_init k e priv flags = (r, priv')"
  shows "\<exists>xs. trace priv' =
           trace priv @ SvcSend COMMAND_RECONFIG (ConfigType ctype) 4 (e_send e) # xs @ [SvcDone] \<and>
           done_calls xs = 0 \<and> sends xs = []"
proof -
  define p2 where "p2 = (reinit_completion priv)\<lparr>receive_cb := Some S10_RECEIVE_CALLBACK,
      trace := trace priv @ [SvcSend COMMAND_RECONFIG (ConfigType ctype) 4 (e_send e)]\<rparr>"
  have sm: "s10_svc_send_msg (e_send e) (reinit_completion priv) COMMAND_RECONFIG
              (ConfigType ctype) 4 S10_RECEIVE_CALLBACK = (e_send e, p2)"
    by (simp add: s10_svc_send_msg_def Let_def p2_def)
  obtain w p3 where w: "wait_for_completion_timeout (e_elapsed e) (deliver k (e_msgs e) p2)
      (S10_RECONFIG_TIMEOUT k) = (w, p3)"
    by (cases "wait_for_completion_timeout (e_elapsed e) (deliver k (e_msgs e) p2)
      (S10_RECONFIG_TIMEOUT k)") auto
  obtain ys where ys: "trace (deliver k (e_msgs e) p2) = trace p2 @ ys" "list_all cb_event ys"
    using deliver_frame [of k "e_msgs e" p2] by blast
  have t2: "trace p2 = trace priv @ [SvcSend COMMAND_RECONFIG (ConfigType ctype) 4 (e_send e)]"
    by (simp add: p2_def)
  from wait_for_completion_timeout_frame(1) [OF w] ys(1) t2
  have t3: "trace p3 = trace priv @ SvcSend COMMAND_RECONFIG (ConfigType ctype) 4 (e_send e) #
              (ys @ [WaitForCompletion (S10_RECONFIG_TIMEOUT k) w])"
    by simp
  have z: "done_calls (ys @ [WaitForCompletion (S10_RECONFIG_TIMEOUT k) w]) = 0 \<and>
           sends (ys @ [WaitForCompletion (S10_RECONFIG_TIMEOUT k) w]) = []"
    using ys(2) by (simp add: cb_events_done_calls cb_events_sends)
  have z0: "done_calls [] = 0 \<and> sends [] = []" by simp
  show ?thesis
  proof (cases "e_send e < 0")
    case True
    with res c sm have "trace priv' = trace p2 @ [SvcDone]"
      by (auto simp add: s10_ops_write_init_def Let_def init_done_def stratix10_svc_done_def)
    with t2 have "trace priv' =
      trace priv @ SvcSend COMMAND_RECONFIG (ConfigType ctype) 4 (e_send e) # [] @ [SvcDone]"
      by simp
    with z0 show ?thesis by blast
  next
    case False
    with res c sm w have "trace priv' = trace p3 @ [SvcDone]"
      by (auto simp add: s10_ops_write_init_def Let_def init_done_def stratix10_svc_done_def
          test_and_clear_bit_def split: if_splits)
    with t3 have "trace priv' =
      trace priv @ SvcSend COMMAND_RECONFIG (ConfigType ctype) 4 (e_send e) #
        (ys @ [WaitForCompletion (S10_RECONFIG_TIMEOUT k) w]) @ [SvcDone]"
      by simp
    with z show ?thesis by blast
  qed
qed

lemma s10_ops_write_complete_pass_done_calls:
  "s10_ops_write_complete_pass k e priv timeout = Return r p \<Longrightarrow>
     done_calls (trace p) = done_calls (trace priv)"
  "s10_ops_write_complete_pass k e priv timeout = Again (p, t1) \<Longrightarrow>
     done_calls (trace p) = done_calls (trace priv)"
proof -
  define priv2 where "priv2 = snd (s10_svc_send_msg (e_send e)
      (reinit_completion (deliver k (e_async e) priv)) COMMAND_RECONFIG_STATUS NoPayload 0
      S10_RECEIVE_CALLBACK)"
  obtain w priv3 where w: "wait_for_completion_timeout (e_elapsed e)
      (deliver k (e_msgs e) priv2) timeout = (w, priv3)"
    by (cases "wait_for_completion_timeout (e_elapsed e)
      (deliver k (e_msgs e) priv2) timeout") auto
  have d2: "done_calls (trace priv2) = done_calls (trace priv)"
    by (simp add: priv2_def s10_svc_send_msg_def Let_def)
  from wait_for_completion_timeout_frame(1) [OF w] d2
  have d3: "done_calls (trace priv3) = done_calls (trace priv)" by simp
  show "s10_ops_write_complete_pass k e priv timeout = Return r p \<Longrightarrow>
     done_calls (trace p) = done_calls (trace priv)"
    using d2 d3 w
    by (auto simp add: s10_ops_write_complete_pass_def s10_ops_write_complete_wait_def Let_def
        priv2_def s10_svc_send_msg_def test_and_clear_bit_def split: if_splits)
  show "s10_ops_write_complete_pass k e priv timeout = Again (p, t1) \<Longrightarrow>
     done_calls (trace p) = done_calls (trace priv)"
    using d2 d3 w
    by (auto simp add: s10_ops_write_complete_pass_def s10_ops_write_complete_wait_def Let_def
        priv2_def s10_svc_send_msg_def test_and_clear_bit_def split: if_splits)
qed

lemma s10_ops_write_complete_loop_done_calls:
  "s10_ops_write_complete_loop k es priv timeout = Some (r, priv') \<Longrightarrow>
   done_calls (trace priv') = done_calls (trace priv)"
proof (induction es arbitrary: priv timeout)
  case Nil
  then show ?case by simp
next
  case (Cons e es)
  show ?case
  proof (cases "s10_ops_write_complete_pass k e priv timeout")
    case (Return r1 p)
    with Cons.prems s10_ops_write_complete_pass_done_calls(1) [OF Return]
    show ?thesis by simp
  next
    case (Again x)
    obtain p t1 where x: "x = (p, t1)" by (cases x) auto
    with Again Cons.prems have "s10_ops_write_complete_loop k es p t1 = Some (r, priv')"
      by simp
    from Cons.IH [OF this]
      s10_ops_write_complete_pass_done_calls(2) [of k e priv timeout p t1] Again x
    show ?thesis by simp
  qed
qed

text \<open>
  C1, as the code has it. \<open>s10_ops_write_complete\<close> calls \<open>stratix10_svc_done\<close> exactly
  once on every path on which it returns, as the last thing it does. So does
  \<open>s10_ops_write_init\<close> on every path that reaches the request, whether the send, the
  wait or the status check fails or all succeed. On the one path that does not reach the
  request (bitstream authentication asked for without partial reconfiguration, and the
  firmware version still \<open>INVALID_FIRMWARE_VERSION\<close>) it returns \<open>-EINVAL\<close> with the state
  untouched: no request and no call of \<open>stratix10_svc_done\<close>.
\<close>

theorem stratix10_svc_done_once:
  "(s10_ops_write_complete k es priv = Some (r, priv1) \<longrightarrow>
      done_calls (trace priv1) = Suc (done_calls (trace priv)) \<and> last (trace priv1) = SvcDone) \<and>
   (s10_ops_write_init k e priv flags = (r2, priv2) \<longrightarrow>
      (if flags AND FPGA_MGR_PARTIAL_RECONFIG k = 0 \<and>
          flags AND FPGA_MGR_BITSTREAM_AUTHENTICATE k \<noteq> 0 \<and>
          fw_version priv = INVALID_FIRMWARE_VERSION
       then r2 = - EINVAL \<and> priv2 = priv
       else done_calls (trace priv2) = Suc (done_calls (trace priv)) \<and>
            last (trace priv2) = SvcDone))"
proof (intro conjI impI)
  assume "s10_ops_write_complete k es priv = Some (r, priv1)"
  then obtain p where l: "s10_ops_write_complete_loop k es priv (S10_RECONFIG_TIMEOUT k) =
      Some (r, p)" and p: "priv1 = stratix10_svc_done p"
    by (auto simp add: s10_ops_write_complete_def split: option.splits)
  from s10_ops_write_complete_loop_done_calls [OF l] p
  show "done_calls (trace priv1) = Suc (done_calls (trace priv))"
    by (simp add: stratix10_svc_done_def)
  from p show "last (trace priv1) = SvcDone"
    by (simp add: stratix10_svc_done_def)
next
  assume res: "s10_ops_write_init k e priv flags = (r2, priv2)"
  show "if flags AND FPGA_MGR_PARTIAL_RECONFIG k = 0 \<and>
          flags AND FPGA_MGR_BITSTREAM_AUTHENTICATE k \<noteq> 0 \<and>
          fw_version priv = INVALID_FIRMWARE_VERSION
       then r2 = - EINVAL \<and> priv2 = priv
       else done_calls (trace priv2) = Suc (done_calls (trace priv)) \<and>
            last (trace priv2) = SvcDone"
  proof (cases "s10_ops_write_init_ctype k priv flags")
    case None
    with res have "r2 = - EINVAL \<and> priv2 = priv"
      by (simp add: s10_ops_write_init_def)
    with None show ?thesis by (simp add: s10_ops_write_init_ctype_None)
  next
    case (Some ctype)
    from s10_ops_write_init_request [OF Some res]
    have "done_calls (trace priv2) = Suc (done_calls (trace priv)) \<and>
            last (trace priv2) = SvcDone" by auto
    moreover from Some have "\<not> (flags AND FPGA_MGR_PARTIAL_RECONFIG k = 0 \<and>
          flags AND FPGA_MGR_BITSTREAM_AUTHENTICATE k \<noteq> 0 \<and>
          fw_version priv = INVALID_FIRMWARE_VERSION)"
      using s10_ops_write_init_ctype_None [of k priv flags] by simp
    ultimately show ?thesis by auto
  qed
qed

theorem stratix10_svc_done_once_witness:
  "done_calls (trace (snd (the (s10_ops_write_complete linux_hdr
      [ex_env [] 0 [ex_msg 1 0] 3, ex_env [] 0 [ex_msg 8 0] 5] (ex_priv 0 0 0 0 0))))) = 1 \<and>
   done_calls (trace (snd (s10_ops_write_init linux_hdr (ex_env [] 0 [ex_msg 1 0] 3)
      (ex_priv 0 0 0 0 0) 0))) = 1"
proof -
  let ?es = "[ex_env [] 0 [ex_msg 1 0] 3, ex_env [] 0 [ex_msg 8 0] 5]"
  let ?c = "s10_ops_write_complete linux_hdr ?es (ex_priv 0 0 0 0 0)"
  let ?i = "s10_ops_write_init linux_hdr (ex_env [] 0 [ex_msg 1 0] 3) (ex_priv 0 0 0 0 0) 0"
  have t: "done_calls (trace (ex_priv 0 0 0 0 0)) = 0" by (simp add: ex_priv_def)
  have "map_option fst ?c = Some 0" by code_simp
  then have c: "?c = Some (0, snd (the ?c))" by (cases ?c) auto
  have i: "?i = (fst ?i, snd ?i)" by simp
  have f: "\<not> ((0 :: u32) AND FPGA_MGR_PARTIAL_RECONFIG linux_hdr = 0 \<and>
          0 AND FPGA_MGR_BITSTREAM_AUTHENTICATE linux_hdr \<noteq> 0 \<and>
          fw_version (ex_priv 0 0 0 0 0) = INVALID_FIRMWARE_VERSION)" by simp
  note T = stratix10_svc_done_once [where k = linux_hdr and priv = "ex_priv 0 0 0 0 0"]
  from T [where es = ?es and r = 0 and ?priv1.0 = "snd (the ?c)", THEN conjunct1, THEN mp, OF c] t
  have a: "done_calls (trace (snd (the ?c))) = 1" by simp
  from T [where e = "ex_env [] 0 [ex_msg 1 0] 3" and flags = 0 and ?r2.0 = "fst ?i"
      and ?priv2.0 = "snd ?i", THEN conjunct2, THEN mp, OF i] f t
  have b: "done_calls (trace (snd ?i)) = 1" by simp
  from a b show ?thesis by simp
qed

text \<open>
  The claim as stated fails: asked for bitstream authentication (flag bit 5 alone) with
  the firmware version unknown, \<open>s10_ops_write_init\<close> returns \<open>-EINVAL\<close> and the state,
  trace included, is the one it was given: \<open>stratix10_svc_done\<close> has not been called.
\<close>

theorem stratix10_svc_done_once_counterexample:
  "s10_ops_write_init linux_hdr (ex_env [] 0 [ex_msg 1 0] 3) (ex_priv 0 0 0 0 0) 32 =
     (- EINVAL, ex_priv 0 0 0 0 0) \<and>
   done_calls (trace (ex_priv 0 0 0 0 0)) = 0 \<and>
   fw_version (ex_priv 0 0 0 0 0) = INVALID_FIRMWARE_VERSION \<and>
   32 AND FPGA_MGR_BITSTREAM_AUTHENTICATE linux_hdr \<noteq> 0"
  by code_simp

text \<open>
  C2, as the code has it. \<open>s10_ops_write_init\<close> returns \<open>-EINVAL\<close> without sending
  anything, and without any other effect, exactly when the flags ask for bitstream
  authentication and not for partial reconfiguration while the firmware version is
  \<open>INVALID_FIRMWARE_VERSION\<close>. With the flag of partial reconfiguration set the request
  is sent as a partial reconfiguration, whether or not the flag of authentication is set
  too and whatever the firmware version: the combination is not rejected. In every case
  but the first the request \<open>COMMAND_RECONFIG\<close> is handed to the service layer.
\<close>

theorem s10_ops_write_init_invalid_config:
  "(flags AND FPGA_MGR_PARTIAL_RECONFIG k = 0 \<and>
    flags AND FPGA_MGR_BITSTREAM_AUTHENTICATE k \<noteq> 0 \<and>
    fw_version priv = INVALID_FIRMWARE_VERSION \<longrightarrow>
      s10_ops_write_init k e priv flags = (- EINVAL, priv)) \<and>
   (flags AND FPGA_MGR_PARTIAL_RECONFIG k \<noteq> 0 \<longrightarrow>
      (\<exists>xs. trace (snd (s10_ops_write_init k e priv flags)) =
         trace priv @
         SvcSend COMMAND_RECONFIG
           (ConfigType (ucast (BIT (COMMAND_RECONFIG_FLAG_PARTIAL k)))) 4 (e_send e) # xs)) \<and>
   (\<not> (flags AND FPGA_MGR_PARTIAL_RECONFIG k = 0 \<and>
       flags AND FPGA_MGR_BITSTREAM_AUTHENTICATE k \<noteq> 0 \<and>
       fw_version priv = INVALID_FIRMWARE_VERSION) \<longrightarrow>
      (\<exists>ctype xs. trace (snd (s10_ops_write_init k e priv flags)) =
         trace priv @ SvcSend COMMAND_RECONFIG (ConfigType ctype) 4 (e_send e) # xs))"
proof (intro conjI impI)
  assume "flags AND FPGA_MGR_PARTIAL_RECONFIG k = 0 \<and>
    flags AND FPGA_MGR_BITSTREAM_AUTHENTICATE k \<noteq> 0 \<and>
    fw_version priv = INVALID_FIRMWARE_VERSION"
  then have "s10_ops_write_init_ctype k priv flags = None"
    by (simp add: s10_ops_write_init_ctype_None)
  then show "s10_ops_write_init k e priv flags = (- EINVAL, priv)"
    by (simp add: s10_ops_write_init_def)
next
  assume "flags AND FPGA_MGR_PARTIAL_RECONFIG k \<noteq> 0"
  then have c: "s10_ops_write_init_ctype k priv flags =
      Some (ucast (BIT (COMMAND_RECONFIG_FLAG_PARTIAL k)))"
    by (simp add: s10_ops_write_init_ctype_def)
  have res: "s10_ops_write_init k e priv flags =
      (fst (s10_ops_write_init k e priv flags), snd (s10_ops_write_init k e priv flags))"
    by simp
  from s10_ops_write_init_request [OF c res]
  show "\<exists>xs. trace (snd (s10_ops_write_init k e priv flags)) =
         trace priv @
         SvcSend COMMAND_RECONFIG
           (ConfigType (ucast (BIT (COMMAND_RECONFIG_FLAG_PARTIAL k)))) 4 (e_send e) # xs"
    by blast
next
  assume "\<not> (flags AND FPGA_MGR_PARTIAL_RECONFIG k = 0 \<and>
       flags AND FPGA_MGR_BITSTREAM_AUTHENTICATE k \<noteq> 0 \<and>
       fw_version priv = INVALID_FIRMWARE_VERSION)"
  then obtain ctype where c: "s10_ops_write_init_ctype k priv flags = Some ctype"
    using s10_ops_write_init_ctype_None [of k priv flags] by auto
  have res: "s10_ops_write_init k e priv flags =
      (fst (s10_ops_write_init k e priv flags), snd (s10_ops_write_init k e priv flags))"
    by simp
  from s10_ops_write_init_request [OF c res]
  show "\<exists>ctype xs. trace (snd (s10_ops_write_init k e priv flags)) =
         trace priv @ SvcSend COMMAND_RECONFIG (ConfigType ctype) 4 (e_send e) # xs"
    by blast
qed

theorem s10_ops_write_init_invalid_config_witness:
  "s10_ops_write_init linux_hdr (ex_env [] 0 [ex_msg 1 0] 3) (ex_priv 0 0 0 0 0) 32 =
     (- EINVAL, ex_priv 0 0 0 0 0)"
proof -
  have "(32 :: u32) AND FPGA_MGR_PARTIAL_RECONFIG linux_hdr = 0 \<and>
    32 AND FPGA_MGR_BITSTREAM_AUTHENTICATE linux_hdr \<noteq> 0 \<and>
    fw_version (ex_priv 0 0 0 0 0) = INVALID_FIRMWARE_VERSION"
    by code_simp
  with s10_ops_write_init_invalid_config
    [where flags = 32 and k = linux_hdr and priv = "ex_priv 0 0 0 0 0"
      and e = "ex_env [] 0 [ex_msg 1 0] 3", THEN conjunct1]
  show ?thesis by (rule mp)
qed

text \<open>
  The claim as stated fails: with both flags set (bits 0 and 5) and the firmware version
  unknown, \<open>s10_ops_write_init\<close> does not return \<open>-EINVAL\<close>; it sends the request for a
  partial reconfiguration and, the service layer answering \<open>OK\<close>, returns 0.
\<close>

theorem s10_ops_write_init_invalid_config_counterexample:
  "fst (s10_ops_write_init linux_hdr (ex_env [] 0 [ex_msg 1 0] 3) (ex_priv 0 0 0 0 0) 33) = 0 \<and>
   sends (trace (snd (s10_ops_write_init linux_hdr (ex_env [] 0 [ex_msg 1 0] 3)
     (ex_priv 0 0 0 0 0) 33))) = [SvcSend COMMAND_RECONFIG (ConfigType 1) 4 0] \<and>
   33 AND FPGA_MGR_PARTIAL_RECONFIG linux_hdr \<noteq> 0 \<and>
   33 AND FPGA_MGR_BITSTREAM_AUTHENTICATE linux_hdr \<noteq> 0 \<and>
   fw_version (ex_priv 0 0 0 0 0) = INVALID_FIRMWARE_VERSION"
  by code_simp

subsection \<open>C7: the time budget of \<open>s10_ops_write_complete\<close>\<close>

text \<open>
  C7. \<open>s10_ops_write_complete\<close> polls pass by pass: a pass sends
  \<open>COMMAND_RECONFIG_STATUS\<close> and waits with the timeout it has, the first pass with
  \<open>S10_RECONFIG_TIMEOUT\<close>. A send that fails ends the function with the error of the
  send. A wait that timed out (\<open>w = 0\<close>) ends it with \<open>-ETIMEDOUT\<close>. A wait that was woken
  ends it with 0 exactly when \<open>COMPLETED\<close> is pending, which is cleared, and with
  \<open>-EFAULT\<close> when \<open>ERROR\<close> and not \<open>COMPLETED\<close> is pending, which is cleared. A wait that
  was woken with neither pending makes the loop go round again with \<open>w\<close>, the time that
  this wait had left, as the timeout of the next wait, and \<open>w\<close> is never more than the
  timeout of this wait. Every return goes through \<open>stratix10_svc_done\<close>, and the function
  is still running when the description of the outside ends. Over a whole run that
  returns, the first wait has \<open>S10_RECONFIG_TIMEOUT\<close> and every later wait has what the wait
  before it returned; a last wait that returned 0 means \<open>-ETIMEDOUT\<close>; and 0 is returned
  only after a last wait that was woken, with \<open>COMPLETED\<close> cleared. The timeouts are
  positive and below \<open>2^31\<close> jiffies, as they pass through the \<open>int\<close> variable \<open>ret\<close>.
\<close>

theorem s10_ops_write_complete_budget:
  assumes p1: "priv1 = reinit_completion (deliver k (e_async e) priv)"
    and p2: "priv2 = priv1\<lparr>receive_cb := Some S10_RECEIVE_CALLBACK,
                          trace := trace priv1 @
                            [SvcSend COMMAND_RECONFIG_STATUS NoPayload 0 (e_send e)]\<rparr>"
    and w: "wait_for_completion_timeout (e_elapsed e) (deliver k (e_msgs e) priv2) timeout =
              (w, priv3)"
    and t: "0 < timeout" "timeout < 0x80000000"
    and T: "0 < S10_RECONFIG_TIMEOUT k" "S10_RECONFIG_TIMEOUT k < 0x80000000"
  shows "(timeout = S10_RECONFIG_TIMEOUT k \<longrightarrow>
      s10_ops_write_complete k (e # es) priv =
        (if e_send e < 0 then Some (e_send e, stratix10_svc_done priv2)
         else if w = 0 then Some (- ETIMEDOUT, stratix10_svc_done priv3)
         else if bit (status priv3) (SVC_STATUS_COMPLETED k)
         then Some (0, stratix10_svc_done
                (priv3\<lparr>status := unset_bit (SVC_STATUS_COMPLETED k) (status priv3)\<rparr>))
         else if bit (status priv3) (SVC_STATUS_ERROR k)
         then Some (- EFAULT, stratix10_svc_done
                (priv3\<lparr>status := unset_bit (SVC_STATUS_ERROR k) (status priv3)\<rparr>))
         else map_option (\<lambda>(r, p). (r, stratix10_svc_done p))
                (s10_ops_write_complete_loop k es priv3 w))) \<and>
    s10_ops_write_complete_loop k (e # es) priv timeout =
      (if e_send e < 0 then Some (e_send e, priv2)
       else if w = 0 then Some (- ETIMEDOUT, priv3)
       else if bit (status priv3) (SVC_STATUS_COMPLETED k)
       then Some (0, priv3\<lparr>status := unset_bit (SVC_STATUS_COMPLETED k) (status priv3)\<rparr>)
       else if bit (status priv3) (SVC_STATUS_ERROR k)
       then Some (- EFAULT, priv3\<lparr>status := unset_bit (SVC_STATUS_ERROR k) (status priv3)\<rparr>)
       else s10_ops_write_complete_loop k es priv3 w) \<and>
    w \<le> timeout \<and>
    ((\<exists>p. s10_ops_write_complete_loop k [e] priv timeout = Some (0, p)) \<longleftrightarrow>
       0 \<le> e_send e \<and> w \<noteq> 0 \<and> bit (status priv3) (SVC_STATUS_COMPLETED k)) \<and>
    s10_ops_write_complete k [] priv = None \<and>
    (\<forall>es r priv'. s10_ops_write_complete k es priv = Some (r, priv') \<longrightarrow>
       (\<exists>xs. trace priv' = trace priv @ xs @ [SvcDone] \<and> done_calls xs = 0 \<and>
             budget_chain (S10_RECONFIG_TIMEOUT k) (waits xs) \<and>
             (waits xs \<noteq> [] \<and> snd (last (waits xs)) = 0 \<longrightarrow> r = - ETIMEDOUT) \<and>
             (r = 0 \<longrightarrow> waits xs \<noteq> [] \<and> snd (last (waits xs)) \<noteq> 0 \<and>
                \<not> bit (status priv') (SVC_STATUS_COMPLETED k)) \<and>
             (r = 0 \<or> r = - EFAULT \<or> r = - ETIMEDOUT \<or> (r < 0 \<and> r \<in> e_send ` set es))))"
proof (intro conjI allI impI)
  note step = s10_ops_write_complete_loop_step [OF p1 p2 w t]
  show "s10_ops_write_complete_loop k (e # es) priv timeout =
      (if e_send e < 0 then Some (e_send e, priv2)
       else if w = 0 then Some (- ETIMEDOUT, priv3)
       else if bit (status priv3) (SVC_STATUS_COMPLETED k)
       then Some (0, priv3\<lparr>status := unset_bit (SVC_STATUS_COMPLETED k) (status priv3)\<rparr>)
       else if bit (status priv3) (SVC_STATUS_ERROR k)
       then Some (- EFAULT, priv3\<lparr>status := unset_bit (SVC_STATUS_ERROR k) (status priv3)\<rparr>)
       else s10_ops_write_complete_loop k es priv3 w)"
    by (rule step)
  show "w \<le> timeout" by (rule wait_result_small(1) [OF w t])
  show "(\<exists>p. s10_ops_write_complete_loop k [e] priv timeout = Some (0, p)) \<longleftrightarrow>
       0 \<le> e_send e \<and> w \<noteq> 0 \<and> bit (status priv3) (SVC_STATUS_COMPLETED k)"
    unfolding s10_ops_write_complete_loop_step [OF p1 p2 w t, of "[]"]
    by (auto simp add: ETIMEDOUT_def EFAULT_def)
  show "s10_ops_write_complete k [] priv = None"
    by (simp add: s10_ops_write_complete_def)
  show "s10_ops_write_complete k (e # es) priv =
        (if e_send e < 0 then Some (e_send e, stratix10_svc_done priv2)
         else if w = 0 then Some (- ETIMEDOUT, stratix10_svc_done priv3)
         else if bit (status priv3) (SVC_STATUS_COMPLETED k)
         then Some (0, stratix10_svc_done
                (priv3\<lparr>status := unset_bit (SVC_STATUS_COMPLETED k) (status priv3)\<rparr>))
         else if bit (status priv3) (SVC_STATUS_ERROR k)
         then Some (- EFAULT, stratix10_svc_done
                (priv3\<lparr>status := unset_bit (SVC_STATUS_ERROR k) (status priv3)\<rparr>))
         else map_option (\<lambda>(r, p). (r, stratix10_svc_done p))
                (s10_ops_write_complete_loop k es priv3 w))"
    if "timeout = S10_RECONFIG_TIMEOUT k"
    unfolding s10_ops_write_complete_def that [symmetric] step
    by (auto split: option.splits)
next
  fix es r priv'
  assume "s10_ops_write_complete k es priv = Some (r, priv')"
  then obtain p where l: "s10_ops_write_complete_loop k es priv (S10_RECONFIG_TIMEOUT k) =
      Some (r, p)" and p: "priv' = stratix10_svc_done p"
    by (auto simp add: s10_ops_write_complete_def split: option.splits)
  from s10_ops_write_complete_loop_trace [OF l T]
  obtain xs where xs: "trace p = trace priv @ xs" "done_calls xs = 0"
    "budget_chain (S10_RECONFIG_TIMEOUT k) (waits xs)"
    "waits xs \<noteq> [] \<and> snd (last (waits xs)) = 0 \<longrightarrow> r = - ETIMEDOUT"
    "r = 0 \<longrightarrow> waits xs \<noteq> [] \<and> snd (last (waits xs)) \<noteq> 0 \<and>
        \<not> bit (status p) (SVC_STATUS_COMPLETED k)"
    "r = 0 \<or> r = - EFAULT \<or> r = - ETIMEDOUT \<or> (r < 0 \<and> r \<in> e_send ` set es)"
    by blast
  from p xs(1) have st: "status priv' = status p"
    and tr: "trace priv' = trace priv @ xs @ [SvcDone]"
    by (simp_all add: stratix10_svc_done_def)
  have "trace priv' = trace priv @ xs @ [SvcDone] \<and> done_calls xs = 0 \<and>
             budget_chain (S10_RECONFIG_TIMEOUT k) (waits xs) \<and>
             (waits xs \<noteq> [] \<and> snd (last (waits xs)) = 0 \<longrightarrow> r = - ETIMEDOUT) \<and>
             (r = 0 \<longrightarrow> waits xs \<noteq> [] \<and> snd (last (waits xs)) \<noteq> 0 \<and>
                \<not> bit (status priv') (SVC_STATUS_COMPLETED k)) \<and>
             (r = 0 \<or> r = - EFAULT \<or> r = - ETIMEDOUT \<or> (r < 0 \<and> r \<in> e_send ` set es))"
    unfolding st using tr xs(2,3,4,5,6) by blast
  then show "\<exists>xs. trace priv' = trace priv @ xs @ [SvcDone] \<and> done_calls xs = 0 \<and>
             budget_chain (S10_RECONFIG_TIMEOUT k) (waits xs) \<and>
             (waits xs \<noteq> [] \<and> snd (last (waits xs)) = 0 \<longrightarrow> r = - ETIMEDOUT) \<and>
             (r = 0 \<longrightarrow> waits xs \<noteq> [] \<and> snd (last (waits xs)) \<noteq> 0 \<and>
                \<not> bit (status priv') (SVC_STATUS_COMPLETED k)) \<and>
             (r = 0 \<or> r = - EFAULT \<or> r = - ETIMEDOUT \<or> (r < 0 \<and> r \<in> e_send ` set es))" ..
qed

theorem s10_ops_write_complete_budget_witness:
  "s10_ops_write_complete linux_hdr [ex_env [] 0 [ex_msg 1 0] 3, ex_env [] 0 [ex_msg 8 0] 5]
     (ex_priv 0 0 0 0 0) =
   Some (0, (ex_priv 0 0 0 0 1)\<lparr>trace :=
     [SvcSend COMMAND_RECONFIG_STATUS NoPayload 0 0, WaitForCompletion 750 747,
      SvcSend COMMAND_RECONFIG_STATUS NoPayload 0 0, WaitForCompletion 747 742, SvcDone]\<rparr>)"
proof -
  let ?e = "ex_env [] 0 [ex_msg 1 0] 3"
  let ?p1 = "reinit_completion (deliver linux_hdr (e_async ?e) (ex_priv 0 0 0 0 0))"
  let ?p2 = "?p1\<lparr>receive_cb := Some S10_RECEIVE_CALLBACK,
                  trace := trace ?p1 @
                    [SvcSend COMMAND_RECONFIG_STATUS NoPayload 0 (e_send ?e)]\<rparr>"
  let ?w = "wait_for_completion_timeout (e_elapsed ?e) (deliver linux_hdr (e_msgs ?e) ?p2)
              (S10_RECONFIG_TIMEOUT linux_hdr)"
  have w: "?w = (fst ?w, snd ?w)" by simp
  have T: "0 < S10_RECONFIG_TIMEOUT linux_hdr" "S10_RECONFIG_TIMEOUT linux_hdr < 0x80000000"
    by (simp_all add: linux_hdr_def)
  note B = s10_ops_write_complete_budget [OF refl refl w T T,
      where es = "[ex_env [] 0 [ex_msg 8 0] 5]", THEN conjunct1, THEN mp, OF refl]
  show ?thesis unfolding B by code_simp
qed

subsection \<open>C8: the status bits that \<open>s10_receive_callback\<close> collects\<close>

lemma ucast_and_BIT: "(ucast (st :: u32) :: ulong) AND BIT n \<noteq> 0 \<longleftrightarrow> bit st n"
  by (auto simp add: BIT_def and_exp_eq_0_iff_not_bit bit_ucast_iff dest: bit_imp_le_length)

lemma s10_receive_callback_loop_bits:
  "bit (s10_receive_callback_loop k i st pst) n \<longleftrightarrow>
     bit pst n \<or> (i \<le> n \<and> n \<le> SVC_STATUS_ERROR k \<and> bit st n)"
proof (induction "Suc (SVC_STATUS_ERROR k) - i" arbitrary: i pst)
  case 0
  then have "\<not> i \<le> SVC_STATUS_ERROR k" by simp
  then show ?case by (subst s10_receive_callback_loop.simps) auto
next
  case (Suc m)
  then have le: "i \<le> SVC_STATUS_ERROR k" by simp
  from Suc have m: "m = Suc (SVC_STATUS_ERROR k) - (i + 1)" by simp
  have step: "s10_receive_callback_loop k i st pst =
      s10_receive_callback_loop k (i + 1) st (if bit st i then set_bit i pst else pst)"
    using le by (subst s10_receive_callback_loop.simps) (simp add: and_exp_eq_0_iff_not_bit)
  have small: "bit st i \<Longrightarrow> i < 64"
    using bit_imp_le_length [of st i] by simp
  have next_i: "i + 1 \<le> n \<longleftrightarrow> i \<le> n \<and> i \<noteq> n" by auto
  show ?case
  proof (cases "bit st i")
    case True
    with small have "i < 64" by simp
    with True le show ?thesis
      unfolding step Suc.hyps(1) [OF m] next_i by (auto simp add: bit_simps)
  next
    case False
    then show ?thesis
      unfolding step Suc.hyps(1) [OF m] next_i by auto
  qed
qed

text \<open>
  C8, as the code has it. \<open>s10_receive_callback\<close> sets in \<open>priv->status\<close> every bit of
  the message's status word whose number is at most \<open>SVC_STATUS_ERROR\<close>, and leaves
  every bit that was set before as it is; the bits of the status word above
  \<open>SVC_STATUS_ERROR\<close> are not taken over. When the bit \<open>SVC_STATUS_BUFFER_DONE\<close> is set
  in the message it then passes \<open>kaddr1\<close>, \<open>kaddr2\<close>, \<open>kaddr3\<close> and \<open>kaddr4\<close>, in this
  order, to \<open>s10_unlock_bufs\<close>, and without that bit no buffer is touched; last it signals
  the completion. (\<open>SVC_STATUS_ERROR < 32\<close> keeps the shift \<open>1 << i\<close> defined.)
\<close>

theorem s10_receive_callback_status:
  assumes "SVC_STATUS_ERROR k < 32"
  shows "(\<forall>n. bit (status (s10_receive_callback k priv data)) n \<longleftrightarrow>
            bit (status priv) n \<or> (n \<le> SVC_STATUS_ERROR k \<and> bit (cb_status data) n)) \<and>
         s10_receive_callback k priv data =
           complete
             (if bit (cb_status data) (SVC_STATUS_BUFFER_DONE k)
              then s10_unlock_bufs
                     (s10_unlock_bufs
                        (s10_unlock_bufs
                           (s10_unlock_bufs
                              (priv\<lparr>status := status (s10_receive_callback k priv data)\<rparr>)
                              (kaddr1 data))
                           (kaddr2 data))
                        (kaddr3 data))
                     (kaddr4 data)
              else priv\<lparr>status := status (s10_receive_callback k priv data)\<rparr>)"
proof -
  obtain bufs xs where f: "s10_receive_callback k priv data =
       priv\<lparr>svc_bufs := bufs,
            status := s10_receive_callback_loop k 0 (cb_status data) (status priv),
            status_return_completion := Suc (status_return_completion priv),
            trace := trace priv @ xs\<rparr>"
    using s10_receive_callback_frame [of k priv data] by blast
  then have st: "status (s10_receive_callback k priv data) =
      s10_receive_callback_loop k 0 (cb_status data) (status priv)"
    by simp
  have "\<forall>n. bit (status (s10_receive_callback k priv data)) n \<longleftrightarrow>
            bit (status priv) n \<or> (n \<le> SVC_STATUS_ERROR k \<and> bit (cb_status data) n)"
    unfolding st by (simp add: s10_receive_callback_loop_bits)
  moreover have "s10_receive_callback k priv data =
           complete
             (if bit (cb_status data) (SVC_STATUS_BUFFER_DONE k)
              then s10_unlock_bufs
                     (s10_unlock_bufs
                        (s10_unlock_bufs
                           (s10_unlock_bufs
                              (priv\<lparr>status := status (s10_receive_callback k priv data)\<rparr>)
                              (kaddr1 data))
                           (kaddr2 data))
                        (kaddr3 data))
                     (kaddr4 data)
              else priv\<lparr>status := status (s10_receive_callback k priv data)\<rparr>)"
    unfolding st by (simp add: s10_receive_callback_def Let_def ucast_and_BIT)
  ultimately show ?thesis by simp
qed

theorem s10_receive_callback_status_witness:
  "bit (status (s10_receive_callback linux_hdr (ex_priv 1 0 0 0 1) (ex_msg 0x24 0x1000))) 0 \<and>
   bit (status (s10_receive_callback linux_hdr (ex_priv 1 0 0 0 1) (ex_msg 0x24 0x1000))) 2 \<and>
   bit (status (s10_receive_callback linux_hdr (ex_priv 1 0 0 0 1) (ex_msg 0x24 0x1000))) 5"
proof -
  have e: "SVC_STATUS_ERROR linux_hdr < 32" by (simp add: linux_hdr_def)
  have b: "bit (status (ex_priv 1 0 0 0 1)) 0" "bit (cb_status (ex_msg 0x24 0x1000)) 2"
    "bit (cb_status (ex_msg 0x24 0x1000)) 5" "SVC_STATUS_ERROR linux_hdr = 5"
    by code_simp+
  from s10_receive_callback_status [OF e, THEN conjunct1,
      of "ex_priv 1 0 0 0 1" "ex_msg 0x24 0x1000"] b
  show ?thesis by simp
qed

text \<open>
  The claim as stated fails for \<open>NO_SUPPORT\<close>: a notification whose status word is the
  bit \<open>SVC_STATUS_NO_SUPPORT\<close> (bit 6, above \<open>SVC_STATUS_ERROR\<close>) leaves the aggregated
  status empty.
\<close>

theorem s10_receive_callback_status_counterexample:
  "bit (cb_status (ex_msg 0x40 0)) (SVC_STATUS_NO_SUPPORT linux_hdr) \<and>
   \<not> bit (status (s10_receive_callback linux_hdr (ex_priv 0 0 0 0 0) (ex_msg 0x40 0)))
        (SVC_STATUS_NO_SUPPORT linux_hdr) \<and>
   status (s10_receive_callback linux_hdr (ex_priv 0 0 0 0 0) (ex_msg 0x40 0)) = 0"
  by code_simp

end
